theory Spec2Isabelle
  imports Complex_Main "HOL-Library.Sublist"
begin

section \<open>JavaScript strings\<close>

text \<open>
  A JavaScript string is a sequence of UTF-16 code units; a code unit is modelled by its
  number. \<open>js ''abc''\<close> is the string of an ASCII literal.
\<close>

type_synonym jsstring = "nat list"

abbreviation js :: "string \<Rightarrow> jsstring" where
  "js s \<equiv> map of_char s"

text \<open>\<open>\d\<close> of a regular expression without the unicode flag: the ten ASCII digits.\<close>

definition isDigit :: "nat \<Rightarrow> bool" where
  "isDigit c \<longleftrightarrow> 48 \<le> c \<and> c \<le> 57"

text \<open>
  A JavaScript number, as far as a line number needs it. A number is a double: it holds
  every integer up to \<open>2^53\<close> exactly (\<open>Exact\<close>); a larger integer is rounded to a
  double near it, or to \<open>Infinity\<close> (\<open>Rounded\<close>, whose value is left open).
\<close>

datatype jsnumber = Exact nat | Rounded

text \<open>The integer that a run of decimal digits denotes, read from the left.\<close>

definition decimal :: "jsstring \<Rightarrow> nat" where
  "decimal ds = foldl (\<lambda>acc c. 10 * acc + (c - 48)) 0 ds"

text \<open>
  \<open>parseInt\<close> as the source uses it, on the capture of \<open>(\d+)\<close>: a non-empty run of
  decimal digits, read in base ten and converted to a number.
\<close>

definition parseInt :: "jsstring \<Rightarrow> jsnumber" where
  "parseInt ds = (if decimal ds \<le> 2 ^ 53 then Exact (decimal ds) else Rounded)"

text \<open>
  The value of a run of decimal digits in positional notation, for comparison: the digit
  at place \<open>i\<close> from the left counts \<open>10 ^ (n - 1 - i)\<close> times, \<open>n\<close> the number of digits.
\<close>

definition positional :: "jsstring \<Rightarrow> nat" where
  "positional ds = (\<Sum>i<length ds. (ds ! i - 48) * 10 ^ (length ds - 1 - i))"

text \<open>
  \<open>s.replace(/pat/g, '')\<close> for a pattern that is a fixed non-empty string: the matches
  are found from left to right, the search resumes behind each match, and every match is
  replaced by the empty string.
\<close>

function stripAll :: "jsstring \<Rightarrow> jsstring \<Rightarrow> jsstring" where
  "stripAll pat [] = []"
| "stripAll pat (c # cs) =
     (if pat \<noteq> [] \<and> prefix pat (c # cs) then stripAll pat (drop (length pat) (c # cs))
      else c # stripAll pat cs)"
  by pat_completeness auto
termination
  by (relation "measure (\<lambda>(pat, s). length s)") auto

text \<open>
  The code units that \<open>String.prototype.trim\<close> removes: the WhiteSpace and
  LineTerminator productions of ECMAScript.
\<close>

definition isWhiteSpace :: "nat \<Rightarrow> bool" where
  "isWhiteSpace c \<longleftrightarrow>
     c \<in> {9, 10, 11, 12, 13, 32, 160, 5760, 8232, 8233, 8239, 8287, 12288, 65279}
     \<or> (8192 \<le> c \<and> c \<le> 8202)"

definition trim :: "jsstring \<Rightarrow> jsstring" where
  "trim s = rev (dropWhile isWhiteSpace (rev (dropWhile isWhiteSpace s)))"

text \<open>\<open>a || b\<close> on an optional string: \<open>undefined\<close> and the empty string are falsy.\<close>

definition orElse :: "jsstring option \<Rightarrow> jsstring \<Rightarrow> jsstring" where
  "orElse a b = (case a of None \<Rightarrow> b | Some s \<Rightarrow> if s = [] then b else s)"

text \<open>Whether a string begins, or ends, with a code unit that \<open>trim\<close> removes.\<close>

definition startsWithWhiteSpace :: "jsstring \<Rightarrow> bool" where
  "startsWithWhiteSpace s = (case s of [] \<Rightarrow> False | c # cs \<Rightarrow> isWhiteSpace c)"

definition endsWithWhiteSpace :: "jsstring \<Rightarrow> bool" where
  "endsWithWhiteSpace s = startsWithWhiteSpace (rev s)"

text \<open>
  What removing every occurrence of a pattern means, for comparison: \<open>s\<close> is cut into
  pieces, each followed by an occurrence of the pattern that is the first one in what is
  left of \<open>s\<close> at that point, and a rest that holds no occurrence; \<open>r\<close> is the pieces and
  the rest without the occurrences.
\<close>

definition removedAll :: "jsstring \<Rightarrow> jsstring \<Rightarrow> jsstring \<Rightarrow> bool" where
  "removedAll pat s r \<longleftrightarrow>
     (\<exists>ps rest. s = concat (map (\<lambda>p. p @ pat) ps) @ rest
        \<and> r = concat ps @ rest
        \<and> list_all (\<lambda>p. \<not> sublist pat (p @ butlast pat)) ps
        \<and> \<not> sublist pat rest)"

text \<open>
  What trimming means, for comparison: \<open>r\<close> is \<open>s\<close> without a run of whitespace at its
  start and one at its end, and \<open>r\<close> itself neither begins nor ends with whitespace.
\<close>

definition trimmedFrom :: "jsstring \<Rightarrow> jsstring \<Rightarrow> bool" where
  "trimmedFrom s r \<longleftrightarrow>
     (\<exists>a b. s = a @ r @ b \<and> list_all isWhiteSpace a \<and> list_all isWhiteSpace b
        \<and> \<not> startsWithWhiteSpace r \<and> \<not> endsWithWhiteSpace r)"

text \<open>
  The clean-up as the claim words it, for comparison: every \<open>```glsl\<close> is removed from
  the text, then every \<open>```\<close>, and the result is trimmed.
\<close>

definition cleaned :: "jsstring \<Rightarrow> jsstring \<Rightarrow> bool" where
  "cleaned raw r \<longleftrightarrow>
     (\<exists>t1 t2. removedAll (js ''```glsl'') raw t1 \<and> removedAll (js ''```'') t1 t2
        \<and> trimmedFrom t2 r)"

text \<open>The number of backticks (code unit 96) a string begins with.\<close>

definition ticks :: "jsstring \<Rightarrow> nat" where
  "ticks s = length (takeWhile (\<lambda>c. c = 96) s)"

section \<open>Diagnostics: the error line of a compiler log (ShaderCanvas.tsx, lines 76-83)\<close>

record ShaderError =
  line :: jsnumber
  message :: jsstring

text \<open>
  \<open>/ERROR: \d+:(\d+):/\<close> tried at the start of \<open>s\<close>; the result is capture group 1.
  Digits and the colon are disjoint, so the greedy run of digits is the only one that a
  colon can follow, and no backtracking into a shorter run can succeed.
\<close>

definition matchAt :: "jsstring \<Rightarrow> jsstring option" where
  "matchAt s =
     (if \<not> prefix (js ''ERROR: '') s then None
      else
        let r = drop 7 s; d1 = takeWhile isDigit r; r1 = dropWhile isDigit r in
        if d1 = [] then None
        else (case r1 of
                [] \<Rightarrow> None
              | c # r2 \<Rightarrow>
                  if c \<noteq> 58 then None
                  else
                    let d2 = takeWhile isDigit r2; r3 = dropWhile isDigit r2 in
                    if d2 = [] then None
                    else (case r3 of
                            [] \<Rightarrow> None
                          | c' # r4 \<Rightarrow> if c' = 58 then Some d2 else None)))"

text \<open>\<open>info.match(re)\<close> for a regular expression without the global flag: the leftmost match.\<close>

fun regexMatch :: "jsstring \<Rightarrow> jsstring option" where
  "regexMatch [] = matchAt []"
| "regexMatch (c # cs) =
     (case matchAt (c # cs) of Some g \<Rightarrow> Some g | None \<Rightarrow> regexMatch cs)"

text \<open>The value handed to \<open>onCompileError\<close> for an info log (lines 77-82).\<close>

definition extractDiagnostic :: "jsstring \<Rightarrow> ShaderError" where
  "extractDiagnostic info =
     (case regexMatch info of
        Some g \<Rightarrow> \<lparr>line = parseInt g, message = info\<rparr>
      | None \<Rightarrow> \<lparr>line = Exact 0, message = info\<rparr>)"

text \<open>
  The pattern as the regular expression denotes it: \<open>s\<close> starts with \<open>ERROR: \<close>, a
  non-empty run of digits, a colon, the non-empty run of digits \<open>g\<close>, and a colon.
\<close>

definition patternAt :: "jsstring \<Rightarrow> jsstring \<Rightarrow> bool" where
  "patternAt s g \<longleftrightarrow>
     (\<exists>ds post. s = js ''ERROR: '' @ ds @ [58] @ g @ [58] @ post
        \<and> ds \<noteq> [] \<and> g \<noteq> [] \<and> list_all isDigit ds \<and> list_all isDigit g)"

section \<open>The AI service (services/geminiService.ts)\<close>

text \<open>
  What \<open>await ai.models.generateContent(...)\<close> does: it throws or rejects, or it resolves
  to a response whose \<open>text\<close> is a string or \<open>undefined\<close>.
\<close>

datatype ai_response = Rejected | Response "jsstring option"

datatype error = GeminiError

text \<open>The clean-up of lines 34 and 56.\<close>

definition cleanup :: "jsstring \<Rightarrow> jsstring" where
  "cleanup text = trim (stripAll (js ''```'') (stripAll (js ''```glsl'') text))"

text \<open>
  Each operation is the body of its \<open>try\<close>, which can fail, under the \<open>catch\<close>, which
  cannot. The result is what the returned promise settles to: \<open>Inr\<close> a string when it
  resolves, \<open>Inl\<close> when it rejects.
\<close>

definition explanationBody :: "ai_response \<Rightarrow> error + jsstring" where
  "explanationBody r =
     (case r of
        Rejected \<Rightarrow> Inl GeminiError
      | Response t \<Rightarrow> Inr (orElse t (js ''Could not generate explanation.'')))"

definition generateShaderExplanation :: "jsstring \<Rightarrow> ai_response \<Rightarrow> error + jsstring" where
  "generateShaderExplanation code r =
     (case explanationBody r of
        Inr s \<Rightarrow> Inr s
      | Inl e \<Rightarrow> Inr (js ''Failed to connect to AI service.''))"

definition promptBody :: "ai_response \<Rightarrow> error + jsstring" where
  "promptBody r =
     (case r of
        Rejected \<Rightarrow> Inl GeminiError
      | Response t \<Rightarrow> Inr (cleanup (orElse t [])))"

definition generateShaderFromPrompt :: "jsstring \<Rightarrow> ai_response \<Rightarrow> error + jsstring" where
  "generateShaderFromPrompt prompt r =
     (case promptBody r of
        Inr s \<Rightarrow> Inr s
      | Inl e \<Rightarrow> Inr (js ''// Error generating shader. Please try again.''))"

definition fixBody :: "jsstring \<Rightarrow> ai_response \<Rightarrow> error + jsstring" where
  "fixBody code r =
     (case r of
        Rejected \<Rightarrow> Inl GeminiError
      | Response t \<Rightarrow> Inr (cleanup (orElse t code)))"

definition fixShaderCode :: "jsstring \<Rightarrow> jsstring \<Rightarrow> ai_response \<Rightarrow> error + jsstring" where
  "fixShaderCode code errorMsg r =
     (case fixBody code r of
        Inr s \<Rightarrow> Inr s
      | Inl e \<Rightarrow> Inr code)"

section \<open>The compile effect (ShaderCanvas.tsx, lines 62-126)\<close>

definition DEFAULT_VERTEX_SHADER :: jsstring where
  "DEFAULT_VERTEX_SHADER =
     js ''\<newline>attribute vec2 position;\<newline>void main() {\<newline>  gl_Position = vec4(position, 0.0, 1.0);\<newline>}\<newline>''"

datatype shader_type = VERTEX_SHADER | FRAGMENT_SHADER

record shader =
  shaderType :: shader_type
  shaderSource :: jsstring

text \<open>
  A WebGLProgram object: \<open>gl.createProgram\<close> returns a new object at every call, told
  apart by \<open>handle\<close>; the two sources are those of the shaders attached to it.
\<close>

record program =
  handle :: nat
  vertexSource :: jsstring
  fragmentSource :: jsstring

text \<open>
  What the graphics driver answers during one run of the effect. For a shader:
  \<open>gl.createShader\<close> returns null, or \<open>COMPILE_STATUS\<close> is false and
  \<open>gl.getShaderInfoLog\<close> returns a string or null, or \<open>COMPILE_STATUS\<close> is true.
\<close>

datatype compile_outcome =
  CreateShaderNull
  | CompileStatusFalse "jsstring option"
  | CompileStatusTrue

record gl_outcome =
  vsOutcome :: compile_outcome
  fsOutcome :: compile_outcome
  createProgramOk :: bool
  linkStatus :: bool
  programInfoLog :: "jsstring option"

text \<open>
  The refs of the component and the calls it makes to the outside, oldest first:
  \<open>reported\<close> holds the arguments of \<open>onCompileError\<close>, \<open>deleted\<close> those of
  \<open>gl.deleteProgram\<close>, \<open>console\<close> those of \<open>console.error\<close>; \<open>created\<close> and
  \<open>linkCalls\<close> count the programs created and the calls of \<open>gl.linkProgram\<close>.
\<close>

record canvas =
  glRef :: bool
  programRef :: "program option"
  reported :: "ShaderError option list"
  deleted :: "program list"
  created :: nat
  linkCalls :: nat
  console :: "jsstring option list"

text \<open>
  \<open>compileShader\<close> (lines 66-87): the shader or null, and the calls of
  \<open>onCompileError\<close> it makes.
\<close>

definition compileShader ::
  "jsstring \<Rightarrow> shader_type \<Rightarrow> compile_outcome \<Rightarrow> shader option \<times> ShaderError option list" where
  "compileShader source ty outcome =
     (case outcome of
        CreateShaderNull \<Rightarrow> (None, [])
      | CompileStatusFalse info \<Rightarrow>
          (None,
           (case info of
              None \<Rightarrow> []
            | Some i \<Rightarrow>
                if ty = FRAGMENT_SHADER \<and> i \<noteq> [] then [Some (extractDiagnostic i)] else []))
      | CompileStatusTrue \<Rightarrow> (Some \<lparr>shaderType = ty, shaderSource = source\<rparr>, []))"

definition compileEffect :: "jsstring \<Rightarrow> gl_outcome \<Rightarrow> canvas \<Rightarrow> canvas" where
  "compileEffect fragmentShader outcome st =
     (if \<not> glRef st then st
      else
        let (vs, e1) = compileShader DEFAULT_VERTEX_SHADER VERTEX_SHADER (vsOutcome outcome);
            (fs, e2) = compileShader fragmentShader FRAGMENT_SHADER (fsOutcome outcome);
            st1 = st\<lparr>reported := reported st @ e1 @ e2\<rparr>
        in (case (vs, fs) of
              (Some v, Some f) \<Rightarrow>
                if \<not> createProgramOk outcome then st1
                else
                  let p = \<lparr>handle = created st1, vertexSource = shaderSource v,
                           fragmentSource = shaderSource f\<rparr>;
                      st2 = st1\<lparr>created := Suc (created st1), linkCalls := Suc (linkCalls st1)\<rparr>
                  in if \<not> linkStatus outcome
                     then st2\<lparr>console := console st2 @ [programInfoLog outcome]\<rparr>
                     else st2\<lparr>deleted := deleted st2 @
                                  (case programRef st2 of None \<Rightarrow> [] | Some old \<Rightarrow> [old]),
                              programRef := Some p,
                              reported := reported st2 @ [None]\<rparr>
            | _ \<Rightarrow> st1))"

text \<open>
  The component after its first effect (lines 22-31): the context obtained, or not and
  \<open>console.error("WebGL not supported")\<close> called; nothing compiled.
\<close>

definition mounted :: "bool \<Rightarrow> canvas" where
  "mounted gl =
     \<lparr>glRef = gl, programRef = None, reported = [], deleted = [], created = 0,
      linkCalls = 0,
      console = (if gl then [] else [Some (js ''WebGL not supported'')])\<rparr>"

text \<open>A sequence of runs of the effect, each with its fragment source and the driver's answers.\<close>

definition compileEffects :: "(jsstring \<times> gl_outcome) list \<Rightarrow> canvas \<Rightarrow> canvas" where
  "compileEffects attempts st = foldl (\<lambda>s (src, outcome). compileEffect src outcome s) st attempts"

text \<open>
  \<open>error\<close> of App.tsx: null at first, then the last argument of \<open>onCompileError\<close>
  (\<open>handleError\<close> is \<open>setError\<close>).
\<close>

definition currentError :: "canvas \<Rightarrow> ShaderError option" where
  "currentError st = (if reported st = [] then None else last (reported st))"

text \<open>An attempt in which both stages compile, the program is created and the link succeeds.\<close>

definition succeeds :: "gl_outcome \<Rightarrow> bool" where
  "succeeds outcome \<longleftrightarrow>
     vsOutcome outcome = CompileStatusTrue \<and> fsOutcome outcome = CompileStatusTrue
     \<and> createProgramOk outcome \<and> linkStatus outcome"

text \<open>The fragment source of the last attempt of a sequence that succeeds, if any.\<close>

definition lastSuccess :: "(jsstring \<times> gl_outcome) list \<Rightarrow> jsstring option" where
  "lastSuccess attempts =
     (case filter (\<lambda>(src, outcome). succeeds outcome) attempts of
        [] \<Rightarrow> None
      | a # as \<Rightarrow> Some (fst (last (a # as))))"

section \<open>The viewport (ShaderCanvas.tsx, lines 22-59)\<close>

text \<open>
  The canvas element and the pointer. \<open>clientWidth\<close>, \<open>clientHeight\<close> (integers) and the
  bounding rectangle are in CSS pixels; \<open>canvasWidth\<close> and \<open>canvasHeight\<close> are the
  \<open>width\<close> and \<open>height\<close> attributes of the drawing buffer.
\<close>

record viewport =
  clientWidth :: nat
  clientHeight :: nat
  rectLeft :: real
  rectTop :: real
  devicePixelRatio :: real
  canvasWidth :: nat
  canvasHeight :: nat
  mouseRef :: "real \<times> real"

text \<open>
  Storing a number into \<open>canvas.width\<close> or \<open>canvas.height\<close> converts it to an unsigned
  long: the fraction is dropped and the result taken modulo \<open>2^32\<close> (the products stored
  here are not negative). The attribute then keeps a value up to \<open>2^31 - 1\<close> and takes
  its default, 300 for the width and 150 for the height, for a larger one.
\<close>

definition toUnsignedLong :: "real \<Rightarrow> nat" where
  "toUnsignedLong x = nat \<lfloor>x\<rfloor> mod 2 ^ 32"

definition reflected :: "nat \<Rightarrow> nat \<Rightarrow> nat" where
  "reflected dflt n = (if n \<le> 2147483647 then n else dflt)"

definition handleResize :: "viewport \<Rightarrow> viewport" where
  "handleResize vp =
     vp\<lparr>canvasWidth :=
          reflected 300 (toUnsignedLong (real (clientWidth vp) * devicePixelRatio vp)),
        canvasHeight :=
          reflected 150 (toUnsignedLong (real (clientHeight vp) * devicePixelRatio vp))\<rparr>"

definition handleMouseMove :: "real \<Rightarrow> real \<Rightarrow> viewport \<Rightarrow> viewport" where
  "handleMouseMove clientX clientY vp =
     vp\<lparr>mouseRef := (clientX - rectLeft vp,
                     real (canvasHeight vp) - (clientY - rectTop vp))\<rparr>"

text \<open>
  The first effect, when the context is obtained: a canvas element of the given layout
  (its drawing buffer 300 by 150 by default) is resized once; the pointer is at (0, 0).
\<close>

definition mountViewport :: "nat \<Rightarrow> nat \<Rightarrow> real \<Rightarrow> real \<Rightarrow> real \<Rightarrow> viewport" where
  "mountViewport cw ch rl rt dpr =
     handleResize
       \<lparr>clientWidth = cw, clientHeight = ch, rectLeft = rl, rectTop = rt,
        devicePixelRatio = dpr, canvasWidth = 300, canvasHeight = 150, mouseRef = (0, 0)\<rparr>"

text \<open>
  The pointer position as the specification words it, for comparison: the offset of the
  pointer inside the canvas in device pixels, the origin at the bottom left.
\<close>

definition specPointer :: "real \<Rightarrow> real \<Rightarrow> viewport \<Rightarrow> real \<times> real" where
  "specPointer clientX clientY vp =
     ((clientX - rectLeft vp) * devicePixelRatio vp,
      real (canvasHeight vp) - (clientY - rectTop vp) * devicePixelRatio vp)"

section \<open>The render loop (ShaderCanvas.tsx, lines 128-163)\<close>

text \<open>One draw call with the uniforms uploaded for it.\<close>

record frame =
  frameProgram :: program
  uResolution :: "nat \<times> nat"
  uTime :: real
  uMouse :: "real \<times> real"

text \<open>
  Times are \<open>Date.now()\<close>, in milliseconds. \<open>pending\<close> is the browser's list of animation
  frame callbacks: the request id and the \<open>isPlaying\<close> that the closure \<open>animate\<close> of the
  requesting render holds. Request ids are not zero.
\<close>

record scheduler =
  startTimeRef :: int
  isPlaying :: bool
  requestRef :: "nat option"
  pending :: "(nat \<times> bool) list"
  nextRequest :: nat
  frames :: "frame list"

definition requestAnimationFrame :: "bool \<Rightarrow> scheduler \<Rightarrow> scheduler" where
  "requestAnimationFrame captured st =
     st\<lparr>requestRef := Some (nextRequest st),
        pending := pending st @ [(nextRequest st, captured)],
        nextRequest := Suc (nextRequest st)\<rparr>"

text \<open>\<open>if (requestRef.current) cancelAnimationFrame(requestRef.current)\<close>\<close>

definition cancelRequest :: "scheduler \<Rightarrow> scheduler" where
  "cancelRequest st =
     (case requestRef st of
        None \<Rightarrow> st
      | Some i \<Rightarrow> st\<lparr>pending := filter (\<lambda>(j, captured). j \<noteq> i) (pending st)\<rparr>)"

definition animate :: "bool \<Rightarrow> int \<Rightarrow> program option \<Rightarrow> viewport \<Rightarrow> scheduler \<Rightarrow> scheduler" where
  "animate captured now prog vp st =
     (let st1 = (case prog of
                   None \<Rightarrow> st
                 | Some p \<Rightarrow>
                     st\<lparr>frames := frames st @
                          [\<lparr>frameProgram = p,
                            uResolution = (canvasWidth vp, canvasHeight vp),
                            uTime = real_of_int (now - startTimeRef st) / 1000,
                            uMouse = mouseRef vp\<rparr>]\<rparr>)
      in if captured then requestAnimationFrame captured st1 else st1)"

text \<open>The component is mounted at time \<open>now\<close>; the effect of lines 154-163 runs.\<close>

definition mountScheduler :: "int \<Rightarrow> bool \<Rightarrow> scheduler" where
  "mountScheduler now playing =
     (let st = \<lparr>startTimeRef = now, isPlaying = playing, requestRef = None, pending = [],
                nextRequest = 1, frames = []\<rparr>
      in if playing then requestAnimationFrame playing st else cancelRequest st)"

text \<open>
  The prop \<open>isPlaying\<close> is set: when it changes, the cleanup of the previous effect runs,
  then the effect.
\<close>

definition setIsPlaying :: "bool \<Rightarrow> scheduler \<Rightarrow> scheduler" where
  "setIsPlaying b st =
     (if b = isPlaying st then st
      else
        let st1 = (cancelRequest st)\<lparr>isPlaying := b\<rparr>
        in if b then requestAnimationFrame b st1 else cancelRequest st1)"

text \<open>The display refreshes at time \<open>now\<close>: the callbacks pending at that moment run.\<close>

definition refresh :: "int \<Rightarrow> program option \<Rightarrow> viewport \<Rightarrow> scheduler \<Rightarrow> scheduler" where
  "refresh now prog vp st =
     foldl (\<lambda>s (i, captured). animate captured now prog vp s) (st\<lparr>pending := []\<rparr>) (pending st)"

datatype event = Refresh int | SetPlaying bool

fun step :: "program option \<Rightarrow> viewport \<Rightarrow> scheduler \<Rightarrow> event \<Rightarrow> scheduler" where
  "step prog vp st (Refresh now) = refresh now prog vp st"
| "step prog vp st (SetPlaying b) = setIsPlaying b st"

definition runEvents :: "program option \<Rightarrow> viewport \<Rightarrow> event list \<Rightarrow> scheduler \<Rightarrow> scheduler" where
  "runEvents prog vp evs st = foldl (step prog vp) st evs"

section \<open>The debounced source (App.tsx, lines 26-34)\<close>

text \<open>
  Times are in milliseconds. \<open>timer\<close> is the pending timeout of the effect: the time at
  which it is due and the \<open>code\<close> its closure holds. \<open>settled\<close> lists the calls of
  \<open>setRunnableCode\<close>, oldest first, with their times.
\<close>

record app =
  code :: jsstring
  runnableCode :: jsstring
  timer :: "(nat \<times> jsstring) option"
  settled :: "(nat \<times> jsstring) list"

text \<open>App is mounted at time \<open>t0\<close>: both states hold the initial source, and the effect runs.\<close>

definition mountApp :: "nat \<Rightarrow> jsstring \<Rightarrow> app" where
  "mountApp t0 initial =
     \<lparr>code = initial, runnableCode = initial, timer = Some (t0 + 800, initial), settled = []\<rparr>"

text \<open>Time passes to \<open>t\<close>: a timeout that is due runs its callback.\<close>

definition advance :: "nat \<Rightarrow> app \<Rightarrow> app" where
  "advance t st =
     (case timer st of
        None \<Rightarrow> st
      | Some (due, c) \<Rightarrow>
          if due \<le> t
          then st\<lparr>runnableCode := c, timer := None, settled := settled st @ [(due, c)]\<rparr>
          else st)"

text \<open>
  \<open>setCode(v)\<close> at time \<open>t\<close>. The effect depends on \<open>code\<close>: when the state changes, the
  cleanup clears the pending timeout and the effect sets a new one; setting the state to
  the value it has runs no effect.
\<close>

definition setCode :: "nat \<Rightarrow> jsstring \<Rightarrow> app \<Rightarrow> app" where
  "setCode t v st =
     (let s = advance t st
      in if v = code s then s else s\<lparr>code := v, timer := Some (t + 800, v)\<rparr>)"

definition runEdits :: "(nat \<times> jsstring) list \<Rightarrow> app \<Rightarrow> app" where
  "runEdits es st = foldl (\<lambda>s (t, v). setCode t v s) st es"

text \<open>
  The settle events as the specification words them: an edit is followed by one event,
  800 ms later and with its content, when no further edit comes before that.
\<close>

fun quietEdits :: "(nat \<times> jsstring) list \<Rightarrow> nat \<Rightarrow> (nat \<times> jsstring) list" where
  "quietEdits [] tEnd = []"
| "quietEdits [(t, v)] tEnd = (if t + 800 \<le> tEnd then [(t + 800, v)] else [])"
| "quietEdits ((t, v) # (t', v') # es) tEnd =
     (if t + 800 \<le> t' then [(t + 800, v)] else []) @ quietEdits ((t', v') # es) tEnd"

text \<open>Every edit changes the content: no two consecutive contents are equal.\<close>

fun changing :: "jsstring \<Rightarrow> (nat \<times> jsstring) list \<Rightarrow> bool" where
  "changing c [] = True"
| "changing c ((t, v) # es) = (v \<noteq> c \<and> changing v es)"

section \<open>Properties of the diagnostics\<close>

lemma not_digit_colon: "\<not> isDigit 58"
  by (simp add: isDigit_def)

lemma takeWhile_digits:
  "list_all isDigit ds \<Longrightarrow> takeWhile isDigit (ds @ 58 # rest) = ds"
  by (induction ds) (simp_all add: not_digit_colon)

lemma dropWhile_digits:
  "list_all isDigit ds \<Longrightarrow> dropWhile isDigit (ds @ 58 # rest) = 58 # rest"
  by (induction ds) (simp_all add: not_digit_colon)

lemma list_all_takeWhile: "list_all P (takeWhile P xs)"
  by (induction xs) simp_all

lemma patternAt_matchAt:
  assumes "patternAt s g"
  shows "matchAt s = Some g"
proof -
  from assms obtain ds post where
    s: "s = js ''ERROR: '' @ ds @ [58] @ g @ [58] @ post"
    and ne: "ds \<noteq> []" "g \<noteq> []" and dig: "list_all isDigit ds" "list_all isDigit g"
    unfolding patternAt_def by blast
  have p: "prefix (js ''ERROR: '') s" using s by (simp only: prefixI)
  have d: "drop 7 s = ds @ 58 # (g @ 58 # post)" using s by simp
  have t1: "takeWhile isDigit (drop 7 s) = ds"
    unfolding d using dig(1) by (rule takeWhile_digits)
  have r1: "dropWhile isDigit (drop 7 s) = 58 # (g @ 58 # post)"
    unfolding d using dig(1) by (rule dropWhile_digits)
  have t2: "takeWhile isDigit (g @ 58 # post) = g"
    using dig(2) by (rule takeWhile_digits)
  have r2: "dropWhile isDigit (g @ 58 # post) = 58 # post"
    using dig(2) by (rule dropWhile_digits)
  show ?thesis
    unfolding matchAt_def Let_def t1 r1 using p ne by (simp add: t2 r2)
qed

lemma matchAt_patternAt:
  assumes "matchAt s = Some g"
  shows "patternAt s g"
proof -
  let ?r = "drop 7 s"
  from assms have p: "prefix (js ''ERROR: '') s"
    unfolding matchAt_def by (simp split: if_splits)
  then have s: "s = js ''ERROR: '' @ ?r"
    by (auto simp: prefix_def)
  from assms p obtain r2 where
    d1: "takeWhile isDigit ?r \<noteq> []" and r1: "dropWhile isDigit ?r = 58 # r2"
    and rest: "(let d2 = takeWhile isDigit r2; r3 = dropWhile isDigit r2 in
                 if d2 = [] then None
                 else (case r3 of [] \<Rightarrow> None | c' # r4 \<Rightarrow> if c' = 58 then Some d2 else None)) = Some g"
    unfolding matchAt_def Let_def by (auto split: if_splits list.splits)
  from rest obtain r4 where
    g: "g = takeWhile isDigit r2" and gne: "g \<noteq> []" and r3: "dropWhile isDigit r2 = 58 # r4"
    unfolding Let_def by (auto split: if_splits list.splits)
  have "?r = takeWhile isDigit ?r @ dropWhile isDigit ?r" by simp
  also have "\<dots> = takeWhile isDigit ?r @ 58 # r2" by (simp only: r1)
  also have "r2 = g @ 58 # r4" using g r3 by (metis takeWhile_dropWhile_id)
  finally have "?r = takeWhile isDigit ?r @ [58] @ g @ [58] @ r4" by simp
  with s have "s = js ''ERROR: '' @ takeWhile isDigit ?r @ [58] @ g @ [58] @ r4" by metis
  moreover have "list_all isDigit (takeWhile isDigit ?r)" by (rule list_all_takeWhile)
  moreover have "list_all isDigit g" unfolding g by (rule list_all_takeWhile)
  ultimately show ?thesis unfolding patternAt_def using d1 gne by blast
qed

lemma matchAt_iff: "matchAt s = Some g \<longleftrightarrow> patternAt s g"
  using patternAt_matchAt matchAt_patternAt by blast

lemma matchAt_Nil: "matchAt [] = None"
  by (simp add: matchAt_def)

lemma regexMatch_None_iff: "regexMatch s = None \<longleftrightarrow> (\<forall>k. matchAt (drop k s) = None)"
proof (induction s)
  case Nil
  show ?case by (simp add: matchAt_Nil)
next
  case (Cons c cs)
  show ?case
  proof
    assume a: "regexMatch (c # cs) = None"
    then have h: "matchAt (c # cs) = None" and t: "regexMatch cs = None"
      by (auto split: option.splits)
    show "\<forall>k. matchAt (drop k (c # cs)) = None"
    proof
      fix k
      show "matchAt (drop k (c # cs)) = None"
        using h t Cons.IH by (cases k) auto
    qed
  next
    assume a: "\<forall>k. matchAt (drop k (c # cs)) = None"
    then have "matchAt (drop 0 (c # cs)) = None" by blast
    then have h: "matchAt (c # cs) = None" by simp
    have "\<forall>k. matchAt (drop k cs) = None"
    proof
      fix k
      from a have "matchAt (drop (Suc k) (c # cs)) = None" by blast
      then show "matchAt (drop k cs) = None" by simp
    qed
    with Cons.IH have "regexMatch cs = None" by simp
    with h show "regexMatch (c # cs) = None" by simp
  qed
qed

lemma regexMatch_leftmost:
  "matchAt (drop k s) = Some g \<Longrightarrow> (\<forall>j<k. matchAt (drop j s) = None) \<Longrightarrow> regexMatch s = Some g"
proof (induction s arbitrary: k)
  case Nil
  then show ?case by simp
next
  case (Cons c cs)
  show ?case
  proof (cases k)
    case 0
    with Cons.prems(1) show ?thesis by simp
  next
    case (Suc n)
    with Cons.prems(2) have "matchAt (drop 0 (c # cs)) = None" by blast
    then have h: "matchAt (c # cs) = None" by simp
    have m: "matchAt (drop n cs) = Some g" using Cons.prems(1) Suc by simp
    have "\<forall>j<n. matchAt (drop j cs) = None"
    proof (intro allI impI)
      fix j assume "j < n"
      then have "Suc j < k" using Suc by simp
      with Cons.prems(2) have "matchAt (drop (Suc j) (c # cs)) = None" by blast
      then show "matchAt (drop j cs) = None" by simp
    qed
    with m have "regexMatch cs = Some g" by (rule Cons.IH)
    with h show ?thesis by simp
  qed
qed

lemma extractDiagnostic_example_line: "extractDiagnostic (js ''ERROR: 0:7: 'foo' : undeclared identifier'') =
   \<lparr>line = Exact 7, message = js ''ERROR: 0:7: 'foo' : undeclared identifier''\<rparr>"
  by (simp add: extractDiagnostic_def matchAt_def isDigit_def parseInt_def decimal_def)

lemma extractDiagnostic_example_none: "extractDiagnostic (js ''no recognizable pattern here'') =
   \<lparr>line = Exact 0, message = js ''no recognizable pattern here''\<rparr>"
  by (simp add: extractDiagnostic_def matchAt_def isDigit_def parseInt_def decimal_def)

lemma decimal_foldl:
  "foldl (\<lambda>acc c. 10 * acc + (c - 48)) a ds = a * 10 ^ length ds + positional ds"
proof (induction ds arbitrary: a)
  case Nil
  show ?case by (simp add: positional_def)
next
  case (Cons c ds)
  define d where "d = c - 48"
  have pc: "positional (c # ds) = d * 10 ^ length ds + positional ds"
    unfolding positional_def length_Cons d_def by (subst sum.lessThan_Suc_shift) simp
  have "foldl (\<lambda>acc c. 10 * acc + (c - 48)) a (c # ds) =
      foldl (\<lambda>acc c. 10 * acc + (c - 48)) (10 * a + d) ds"
    by (simp add: d_def)
  also have "\<dots> = (10 * a + d) * 10 ^ length ds + positional ds"
    by (rule Cons.IH)
  also have "\<dots> = a * 10 ^ length (c # ds) + positional (c # ds)"
    by (simp add: pc algebra_simps)
  finally show ?case .
qed

lemma decimal_positional: "decimal ds = positional ds"
  by (simp add: decimal_def decimal_foldl)

lemma parseInt_positional:
  "parseInt ds = (if positional ds \<le> 2 ^ 53 then Exact (positional ds) else Rounded)"
  by (simp add: parseInt_def decimal_positional)

text \<open>
  C2, as the code has it. For every log the value built from it carries the whole log as
  its message. Its line is read from the leftmost place where the log holds \<open>ERROR: \<close>,
  one or more decimal digits, a colon, one or more decimal digits and a colon: the second
  run of digits is the line number, and the line is the integer it denotes when that is
  at most \<open>2^53\<close>, and a number rounded from it when it is larger. When the log holds
  the pattern nowhere, the line is 0. The shader id must be a run of decimal digits: any
  other identifier is no match. The log \<open>ERROR: 0:7: 'foo' : undeclared identifier\<close>
  gives line 7 and the log \<open>no recognizable pattern here\<close> gives line 0, each with the
  full log as message.
\<close>

theorem extractDiagnostic_pattern:
  "message (extractDiagnostic rawLog) = rawLog
   \<and> (\<forall>k g. patternAt (drop k rawLog) g \<and> (\<forall>j<k. \<forall>g'. \<not> patternAt (drop j rawLog) g')
        \<longrightarrow> line (extractDiagnostic rawLog) =
              (if positional g \<le> 2 ^ 53 then Exact (positional g) else Rounded))
   \<and> ((\<forall>k g. \<not> patternAt (drop k rawLog) g) \<longrightarrow> line (extractDiagnostic rawLog) = Exact 0)
   \<and> extractDiagnostic (js ''ERROR: 0:7: 'foo' : undeclared identifier'') =
       \<lparr>line = Exact 7, message = js ''ERROR: 0:7: 'foo' : undeclared identifier''\<rparr>
   \<and> extractDiagnostic (js ''no recognizable pattern here'') =
       \<lparr>line = Exact 0, message = js ''no recognizable pattern here''\<rparr>"
proof (intro conjI allI impI)
  show "message (extractDiagnostic rawLog) = rawLog"
    by (simp add: extractDiagnostic_def split: option.splits)
next
  fix k g
  assume a: "patternAt (drop k rawLog) g \<and> (\<forall>j<k. \<forall>g'. \<not> patternAt (drop j rawLog) g')"
  then have "matchAt (drop k rawLog) = Some g" by (simp add: matchAt_iff)
  moreover have "\<forall>j<k. matchAt (drop j rawLog) = None"
    using a by (metis matchAt_iff not_Some_eq)
  ultimately have "regexMatch rawLog = Some g" by (rule regexMatch_leftmost)
  then have "line (extractDiagnostic rawLog) = parseInt g"
    by (simp add: extractDiagnostic_def)
  then show "line (extractDiagnostic rawLog) =
      (if positional g \<le> 2 ^ 53 then Exact (positional g) else Rounded)"
    by (simp only: parseInt_positional)
next
  assume "\<forall>k g. \<not> patternAt (drop k rawLog) g"
  then have "\<forall>k. matchAt (drop k rawLog) = None"
    by (metis matchAt_iff not_Some_eq)
  then have "regexMatch rawLog = None" by (simp add: regexMatch_None_iff)
  then show "line (extractDiagnostic rawLog) = Exact 0"
    by (simp add: extractDiagnostic_def)
next
  show "extractDiagnostic (js ''ERROR: 0:7: 'foo' : undeclared identifier'') =
       \<lparr>line = Exact 7, message = js ''ERROR: 0:7: 'foo' : undeclared identifier''\<rparr>"
    by (rule extractDiagnostic_example_line)
next
  show "extractDiagnostic (js ''no recognizable pattern here'') =
       \<lparr>line = Exact 0, message = js ''no recognizable pattern here''\<rparr>"
    by (rule extractDiagnostic_example_none)
qed

text \<open>
  C2 at a log with the pattern behind two other code units, at a log whose line number
  is above \<open>2^53\<close>, and at a log without the pattern.
\<close>

theorem extractDiagnostic_pattern_witness:
  "patternAt (drop 2 (js ''x ERROR: 12:34: y'')) (js ''34'')
   \<and> \<not> (\<exists>g'. patternAt (drop 0 (js ''x ERROR: 12:34: y'')) g')
   \<and> \<not> (\<exists>g'. patternAt (drop 1 (js ''x ERROR: 12:34: y'')) g')
   \<and> line (extractDiagnostic (js ''x ERROR: 12:34: y'')) = Exact 34
   \<and> patternAt (drop 0 (js ''ERROR: 0:9007199254740993: x'')) (js ''9007199254740993'')
   \<and> line (extractDiagnostic (js ''ERROR: 0:9007199254740993: x'')) = Rounded
   \<and> \<not> (\<exists>k g. patternAt (drop k (js ''ERROR: 12:x'')) g)
   \<and> line (extractDiagnostic (js ''ERROR: 12:x'')) = Exact 0"
proof -
  have m: "matchAt (drop 2 (js ''x ERROR: 12:34: y'')) = Some (js ''34'')"
    by (simp add: matchAt_def isDigit_def)
  then have h1: "patternAt (drop 2 (js ''x ERROR: 12:34: y'')) (js ''34'')"
    by (simp only: matchAt_iff)
  have h2: "\<forall>j<2. \<forall>g'. \<not> patternAt (drop j (js ''x ERROR: 12:34: y'')) g'"
  proof (intro allI impI)
    fix j :: nat and g' assume "j < 2"
    then have "j = 0 \<or> j = 1" by auto
    then have "matchAt (drop j (js ''x ERROR: 12:34: y'')) = None"
      by (auto simp: matchAt_def)
    then show "\<not> patternAt (drop j (js ''x ERROR: 12:34: y'')) g'"
      by (simp add: matchAt_iff [symmetric])
  qed
  have "matchAt (drop 0 (js ''ERROR: 0:9007199254740993: x'')) = Some (js ''9007199254740993'')"
    by (simp add: matchAt_def isDigit_def)
  then have h4: "patternAt (drop 0 (js ''ERROR: 0:9007199254740993: x'')) (js ''9007199254740993'')"
    by (simp only: matchAt_iff)
  have h5: "\<forall>j<(0::nat). \<forall>g'. \<not> patternAt (drop j (js ''ERROR: 0:9007199254740993: x'')) g'"
    by simp
  have "regexMatch (js ''ERROR: 12:x'') = None"
    by (simp add: matchAt_def isDigit_def)
  then have a: "\<forall>k. matchAt (drop k (js ''ERROR: 12:x'')) = None"
    using regexMatch_None_iff [of "js ''ERROR: 12:x''"] by blast
  have h3: "\<forall>k g. \<not> patternAt (drop k (js ''ERROR: 12:x'')) g"
  proof (intro allI)
    fix k g
    from a have "matchAt (drop k (js ''ERROR: 12:x'')) = None" by blast
    then show "\<not> patternAt (drop k (js ''ERROR: 12:x'')) g"
      using matchAt_iff [of "drop k (js ''ERROR: 12:x'')" g] by auto
  qed
  have p: "positional (js ''34'') = 34"
    by (simp add: decimal_positional [symmetric] decimal_def)
  have q: "positional (js ''9007199254740993'') = 9007199254740993"
    by (simp add: decimal_positional [symmetric] decimal_def)
  from h1 h2 extractDiagnostic_pattern [of "js ''x ERROR: 12:34: y''"]
  have "line (extractDiagnostic (js ''x ERROR: 12:34: y'')) =
      (if positional (js ''34'') \<le> 2 ^ 53 then Exact (positional (js ''34'')) else Rounded)"
    by blast
  then have l1: "line (extractDiagnostic (js ''x ERROR: 12:34: y'')) = Exact 34"
    using p by simp
  from h4 h5 extractDiagnostic_pattern [of "js ''ERROR: 0:9007199254740993: x''"]
  have "line (extractDiagnostic (js ''ERROR: 0:9007199254740993: x'')) =
      (if positional (js ''9007199254740993'') \<le> 2 ^ 53
       then Exact (positional (js ''9007199254740993'')) else Rounded)"
    by blast
  then have l2: "line (extractDiagnostic (js ''ERROR: 0:9007199254740993: x'')) = Rounded"
    using q by simp
  from h3 extractDiagnostic_pattern [of "js ''ERROR: 12:x''"]
  have l3: "line (extractDiagnostic (js ''ERROR: 12:x'')) = Exact 0"
    by blast
  have n: "\<not> (\<exists>g'. patternAt (drop 0 (js ''x ERROR: 12:34: y'')) g')"
    "\<not> (\<exists>g'. patternAt (drop 1 (js ''x ERROR: 12:34: y'')) g')"
    using h2 by (metis zero_less_numeral, metis one_less_numeral_iff semiring_norm(76))
  from h1 n l1 h4 l2 h3 l3 show ?thesis by (simp only: simp_thms not_ex)
qed

text \<open>
  C2 as stated fails for a shader id that is not a number: the log below has the shape
  \<open>ERROR: <shaderId>:<lineNumber>:\<close> with the identifier \<open>frag\<close> and the line number 7,
  and the line found is 0. It fails too for a line number above \<open>2^53\<close>: there the line
  is a rounded number, not the integer that was written.
\<close>

theorem extractDiagnostic_identifier_counterexample:
  "line (extractDiagnostic (js ''ERROR: '' @ js ''frag'' @ js '':'' @ js ''7'' @ js '':''
           @ js '' 'foo' : undeclared identifier'')) = Exact 0
   \<and> parseInt (js ''7'') = Exact 7
   \<and> line (extractDiagnostic (js ''ERROR: 0:9007199254740993: x'')) = Rounded"
  by (simp add: extractDiagnostic_def matchAt_def isDigit_def parseInt_def decimal_def)

section \<open>Properties of the AI service\<close>

lemma ticks_simps [simp]:
  "ticks [] = 0" "ticks (c # cs) = (if c = 96 then Suc (ticks cs) else 0)"
  by (simp_all add: ticks_def)

lemma fence_prefix_ticks: "prefix (js ''```'') s \<longleftrightarrow> 3 \<le> ticks s"
proof (cases s)
  case Nil then show ?thesis by simp
next
  case (Cons a t)
  note s = this
  show ?thesis
  proof (cases t)
    case Nil with s show ?thesis by simp
  next
    case (Cons b u)
    note t = this
    show ?thesis
    proof (cases u)
      case Nil with s t show ?thesis by simp
    next
      case (Cons c v)
      with s t show ?thesis by auto
    qed
  qed
qed

lemma ticks_drop_fence: "prefix (js ''```'') s \<Longrightarrow> ticks s = 3 + ticks (drop 3 s)"
  by (auto simp: prefix_def)

lemma stripAll_skip: "\<not> prefix pat (c # cs) \<Longrightarrow> stripAll pat (c # cs) = c # stripAll pat cs"
  by (subst stripAll.simps) simp

lemma ticks_stripAll: "ticks (stripAll (js ''```'') s) = ticks s mod 3"
proof (induction "js ''```''" s rule: stripAll.induct)
  case 1
  show ?case by simp
next
  case (2 c cs)
  show ?case
  proof (cases "prefix (js ''```'') (c # cs)")
    case True
    then obtain rest where r: "c # cs = js ''```'' @ rest"
      by (auto simp: prefix_def)
    have "stripAll (js ''```'') (c # cs) = stripAll (js ''```'') rest"
      using r by simp
    moreover have "ticks (stripAll (js ''```'') rest) = ticks rest mod 3"
      using 2(1) True r by simp
    moreover have "ticks (c # cs) = 3 + ticks rest"
      using r by simp
    ultimately show ?thesis by simp
  next
    case False
    then have eq: "stripAll (js ''```'') (c # cs) = c # stripAll (js ''```'') cs"
      by (rule stripAll_skip)
    have ih: "ticks (stripAll (js ''```'') cs) = ticks cs mod 3"
      using 2(2) False by simp
    have small: "ticks (c # cs) < 3"
      using False by (simp only: fence_prefix_ticks not_le)
    show ?thesis
    proof (cases "c = 96")
      case True
      with small have "ticks cs < 2" by simp
      with True eq ih show ?thesis by simp
    next
      case False
      with eq show ?thesis by simp
    qed
  qed
qed

lemma stripAll_no_fence: "\<not> sublist (js ''```'') (stripAll (js ''```'') s)"
proof (induction "js ''```''" s rule: stripAll.induct)
  case 1
  show ?case by simp
next
  case (2 c cs)
  show ?case
  proof (cases "prefix (js ''```'') (c # cs)")
    case True
    then obtain rest where r: "c # cs = js ''```'' @ rest"
      by (auto simp: prefix_def)
    have "stripAll (js ''```'') (c # cs) = stripAll (js ''```'') rest"
      using r by simp
    moreover have "\<not> sublist (js ''```'') (stripAll (js ''```'') rest)"
      using 2(1) True r by simp
    ultimately show ?thesis by simp
  next
    case False
    then have eq: "stripAll (js ''```'') (c # cs) = c # stripAll (js ''```'') cs"
      by (rule stripAll_skip)
    have ih: "\<not> sublist (js ''```'') (stripAll (js ''```'') cs)"
      using 2(2) False by simp
    have small: "ticks (c # cs) < 3"
      using False by (simp only: fence_prefix_ticks not_le)
    have "\<not> prefix (js ''```'') (c # stripAll (js ''```'') cs)"
    proof
      assume "prefix (js ''```'') (c # stripAll (js ''```'') cs)"
      then have big: "3 \<le> ticks (c # stripAll (js ''```'') cs)"
        by (simp only: fence_prefix_ticks)
      then have c: "c = 96" by (simp split: if_splits)
      with big have "2 \<le> ticks cs mod 3" using ticks_stripAll [of cs] by simp
      moreover from c small have "ticks cs < 2" by simp
      ultimately show False by simp
    qed
    with ih eq show ?thesis by (simp add: sublist_Cons_right)
  qed
qed

lemma sublist_trim: "sublist (trim s) s"
proof -
  have "suffix (dropWhile isWhiteSpace (rev (dropWhile isWhiteSpace s))) (rev (dropWhile isWhiteSpace s))"
    by (rule suffix_dropWhile)
  then have "sublist (dropWhile isWhiteSpace (rev (dropWhile isWhiteSpace s))) (rev (dropWhile isWhiteSpace s))"
    by (rule suffix_imp_sublist)
  then have "sublist (trim s) (dropWhile isWhiteSpace s)"
    unfolding trim_def by (metis sublist_rev rev_rev_ident)
  moreover have "sublist (dropWhile isWhiteSpace s) s"
    by (rule suffix_imp_sublist) (rule suffix_dropWhile)
  ultimately show ?thesis by (rule sublist_order.order.trans)
qed

lemma fence_in_glsl: "sublist (js ''```glsl'') s \<Longrightarrow> sublist (js ''```'') s"
proof -
  assume a: "sublist (js ''```glsl'') s"
  have "sublist (js ''```'') (js ''```glsl'')" by (simp add: sublist_Cons_right)
  then show ?thesis using a by (rule sublist_order.order.trans)
qed

lemma cleanup_no_fence: "\<not> sublist (js ''```'') (cleanup text)"
proof
  assume "sublist (js ''```'') (cleanup text)"
  moreover have "sublist (cleanup text) (stripAll (js ''```'') (stripAll (js ''```glsl'') text))"
    unfolding cleanup_def by (rule sublist_trim)
  ultimately have "sublist (js ''```'') (stripAll (js ''```'') (stripAll (js ''```glsl'') text))"
    by (rule sublist_order.order.trans)
  then show False by (simp only: stripAll_no_fence)
qed

lemma trim_no_leading: "\<not> startsWithWhiteSpace (trim s)"
proof -
  let ?t = "dropWhile isWhiteSpace s"
  show ?thesis
  proof (cases "?t")
    case Nil
    then have "trim s = []" by (simp only: trim_def rev.simps dropWhile.simps)
    then show ?thesis by (simp add: startsWithWhiteSpace_def)
  next
    case (Cons a u)
    then have a: "\<not> isWhiteSpace a" by (metis hd_dropWhile list.sel(1) list.distinct(1))
    have "rev ?t = rev u @ [a]" using Cons by simp
    then have "dropWhile isWhiteSpace (rev ?t) = dropWhile isWhiteSpace (rev u) @ [a]"
      using a by (simp add: dropWhile_append)
    then have "trim s = a # rev (dropWhile isWhiteSpace (rev u))"
      by (simp add: trim_def)
    with a show ?thesis by (simp add: startsWithWhiteSpace_def)
  qed
qed

lemma trim_no_trailing: "\<not> endsWithWhiteSpace (trim s)"
proof -
  let ?d = "dropWhile isWhiteSpace (rev (dropWhile isWhiteSpace s))"
  have r: "rev (trim s) = ?d"
    by (simp add: trim_def)
  show ?thesis
  proof (cases ?d)
    case Nil
    with r have "rev (trim s) = []" by (simp only:)
    then show ?thesis by (simp add: endsWithWhiteSpace_def startsWithWhiteSpace_def)
  next
    case (Cons a u)
    then have "\<not> isWhiteSpace a" by (metis hd_dropWhile list.sel(1) list.distinct(1))
    moreover from r Cons have "rev (trim s) = a # u" by (simp only:)
    ultimately show ?thesis by (simp add: endsWithWhiteSpace_def startsWithWhiteSpace_def)
  qed
qed

lemma cleanup_clean:
  "\<not> sublist (js ''```'') (cleanup raw) \<and> \<not> sublist (js ''```glsl'') (cleanup raw)
   \<and> \<not> startsWithWhiteSpace (cleanup raw) \<and> \<not> endsWithWhiteSpace (cleanup raw)"
proof -
  have "\<not> startsWithWhiteSpace (cleanup raw)" "\<not> endsWithWhiteSpace (cleanup raw)"
    unfolding cleanup_def by (rule trim_no_leading, rule trim_no_trailing)
  then show ?thesis
    using cleanup_no_fence [of raw] fence_in_glsl [of "cleanup raw"] by blast
qed

text \<open>
  C8. Each of the three operations resolves to a string, whatever the AI call does, and
  never rejects. When the AI call rejects or throws, \<open>fixShaderCode\<close> resolves to the
  source it was given, unchanged, \<open>generateShaderFromPrompt\<close> to a string that starts
  with \<open>// Error\<close> (the prefix App.tsx tests for), and \<open>generateShaderExplanation\<close> to
  the fixed string \<open>Failed to connect to AI service.\<close>
\<close>

theorem ai_service_never_raises:
  "(\<exists>s. generateShaderExplanation source r = Inr s)
   \<and> (\<exists>s. generateShaderFromPrompt prompt r = Inr s)
   \<and> (\<exists>s. fixShaderCode source errorMsg r = Inr s)
   \<and> fixShaderCode source errorMsg Rejected = Inr source
   \<and> (\<exists>s. generateShaderFromPrompt prompt Rejected = Inr s \<and> prefix (js ''// Error'') s)
   \<and> generateShaderExplanation source Rejected = Inr (js ''Failed to connect to AI service.'')"
  by (cases r)
     (simp_all add: generateShaderExplanation_def explanationBody_def
        generateShaderFromPrompt_def promptBody_def fixShaderCode_def fixBody_def)

lemma removedAll_Nil: "pat \<noteq> [] \<Longrightarrow> removedAll pat [] []"
  unfolding removedAll_def by (rule exI [of _ "[]"], rule exI [of _ "[]"]) simp

lemma short_no_sublist: "pat \<noteq> [] \<Longrightarrow> \<not> sublist pat (butlast pat)"
proof
  assume ne: "pat \<noteq> []" and sub: "sublist pat (butlast pat)"
  from sub have "length pat \<le> length (butlast pat)" by (rule sublist_length_le)
  then have "length pat \<le> length pat - 1" by (simp only: length_butlast)
  moreover have "0 < length pat" using ne by simp
  ultimately show False by linarith
qed

lemma removedAll_match:
  assumes "removedAll pat s r" "pat \<noteq> []"
  shows "removedAll pat (pat @ s) r"
proof -
  from assms(1) obtain ps rest where
    s: "s = concat (map (\<lambda>p. p @ pat) ps) @ rest" and r: "r = concat ps @ rest"
    and a: "list_all (\<lambda>p. \<not> sublist pat (p @ butlast pat)) ps" and n: "\<not> sublist pat rest"
    unfolding removedAll_def by blast
  have "pat @ s = concat (map (\<lambda>p. p @ pat) ([] # ps)) @ rest" using s by simp
  moreover have "r = concat ([] # ps) @ rest" using r by simp
  moreover have "list_all (\<lambda>p. \<not> sublist pat (p @ butlast pat)) ([] # ps)"
    using a short_no_sublist [OF assms(2)] by simp
  ultimately show ?thesis unfolding removedAll_def using n by blast
qed

lemma removedAll_skip:
  assumes "removedAll pat s r" "\<not> prefix pat (c # s)"
  shows "removedAll pat (c # s) (c # r)"
proof -
  from assms(1) obtain ps rest where
    s: "s = concat (map (\<lambda>p. p @ pat) ps) @ rest" and r: "r = concat ps @ rest"
    and a: "list_all (\<lambda>p. \<not> sublist pat (p @ butlast pat)) ps" and n: "\<not> sublist pat rest"
    unfolding removedAll_def by blast
  show ?thesis
  proof (cases ps)
    case Nil
    with s r have sr: "s = rest" "r = rest" by simp_all
    have "\<not> sublist pat (c # rest)"
      using assms(2) n sr by (simp add: sublist_Cons_right)
    moreover have "c # s = concat (map (\<lambda>p. p @ pat) []) @ (c # rest)" using sr by simp
    moreover have "c # r = concat [] @ (c # rest)" using sr by simp
    ultimately show ?thesis unfolding removedAll_def
      by (intro exI [of _ "[]"] exI [of _ "c # rest"]) simp
  next
    case (Cons p ps')
    have pne: "pat \<noteq> []" using assms(2) by auto
    have s': "s = p @ pat @ concat (map (\<lambda>p. p @ pat) ps') @ rest" using s Cons by simp
    have np: "\<not> sublist pat (p @ butlast pat)" using a Cons by simp
    have "\<not> prefix pat (c # p @ butlast pat)"
    proof
      assume h: "prefix pat (c # p @ butlast pat)"
      have e: "butlast pat @ [last pat] = pat" using pne by simp
      have "c # s = c # p @ (butlast pat @ [last pat]) @ concat (map (\<lambda>p. p @ pat) ps') @ rest"
        unfolding e by (simp add: s')
      then have "c # s = (c # p @ butlast pat) @ ([last pat] @ concat (map (\<lambda>p. p @ pat) ps') @ rest)"
        by simp
      then have "prefix (c # p @ butlast pat) (c # s)" by (rule prefixI)
      with h have "prefix pat (c # s)" by (rule prefix_order.trans)
      with assms(2) show False by simp
    qed
    with np have "\<not> sublist pat ((c # p) @ butlast pat)"
      by (simp add: sublist_Cons_right)
    then have "list_all (\<lambda>p. \<not> sublist pat (p @ butlast pat)) ((c # p) # ps')"
      using a Cons by simp
    moreover have "c # s = concat (map (\<lambda>p. p @ pat) ((c # p) # ps')) @ rest" using s Cons by simp
    moreover have "c # r = concat ((c # p) # ps') @ rest" using r Cons by simp
    ultimately show ?thesis unfolding removedAll_def using n by blast
  qed
qed

lemma stripAll_match:
  "pat \<noteq> [] \<Longrightarrow> stripAll pat (pat @ s) = stripAll pat s"
proof -
  assume ne: "pat \<noteq> []"
  then obtain c cs where p: "pat @ s = c # cs" by (cases pat) auto
  have "prefix pat (pat @ s)" by simp
  then have "prefix pat (c # cs)" by (simp only: p)
  then have "stripAll pat (c # cs) = stripAll pat (drop (length pat) (c # cs))"
    using ne by (subst stripAll.simps) simp
  moreover have "drop (length pat) (pat @ s) = s" by simp
  ultimately show ?thesis by (simp only: p [symmetric])
qed

lemma stripAll_removedAll:
  "pat \<noteq> [] \<Longrightarrow> removedAll pat s (stripAll pat s)"
proof (induction pat s rule: stripAll.induct)
  case (1 pat)
  then show ?case by (simp add: removedAll_Nil)
next
  case (2 pat c cs)
  show ?case
  proof (cases "prefix pat (c # cs)")
    case True
    then obtain rest where r: "c # cs = pat @ rest" by (auto simp: prefix_def)
    have d: "drop (length pat) (c # cs) = rest" unfolding r by simp
    have "removedAll pat rest (stripAll pat rest)"
      using "2.IH"(1) "2.prems" True d by simp
    then have "removedAll pat (pat @ rest) (stripAll pat rest)"
      using "2.prems" by (rule removedAll_match)
    then show ?thesis unfolding r by (simp only: stripAll_match [OF "2.prems"])
  next
    case False
    then have "removedAll pat cs (stripAll pat cs)" using "2.IH"(2) "2.prems" by simp
    then have "removedAll pat (c # cs) (c # stripAll pat cs)"
      using False by (rule removedAll_skip)
    then show ?thesis by (simp only: stripAll_skip [OF False])
  qed
qed

lemma stripAll_keep: "\<not> sublist pat s \<Longrightarrow> stripAll pat s = s"
proof (induction s)
  case Nil
  show ?case by simp
next
  case (Cons c cs)
  then have np: "\<not> prefix pat (c # cs)" and ns: "\<not> sublist pat cs"
    by (simp_all add: sublist_Cons_right)
  show ?case using Cons.IH [OF ns] by (simp only: stripAll_skip [OF np])
qed

lemma stripAll_piece:
  "pat \<noteq> [] \<Longrightarrow> \<not> sublist pat (p @ butlast pat) \<Longrightarrow>
   stripAll pat (p @ pat @ s) = p @ stripAll pat s"
proof (induction p)
  case Nil
  then show ?case by (simp add: stripAll_match)
next
  case (Cons c p)
  from Cons.prems(2) have np: "\<not> prefix pat (c # p @ butlast pat)"
    and ns: "\<not> sublist pat (p @ butlast pat)"
    by (simp_all add: sublist_Cons_right)
  have "\<not> prefix pat (c # p @ pat @ s)"
  proof
    assume h: "prefix pat (c # p @ pat @ s)"
    have e: "butlast pat @ [last pat] = pat" using Cons.prems(1) by simp
    have "c # p @ pat @ s = c # p @ (butlast pat @ [last pat]) @ s"
      unfolding e by simp
    then have "c # p @ pat @ s = (c # p @ butlast pat) @ ([last pat] @ s)"
      by simp
    then have q: "prefix (c # p @ butlast pat) (c # p @ pat @ s)" by (rule prefixI)
    have "length pat \<le> length (c # p @ butlast pat)"
      using Cons.prems(1) by (cases pat) simp_all
    with h q have "prefix pat (c # p @ butlast pat)" by (rule prefix_length_prefix)
    with np show False by simp
  qed
  then have "stripAll pat (c # p @ pat @ s) = c # stripAll pat (p @ pat @ s)"
    by (rule stripAll_skip)
  then show ?case using Cons.IH [OF Cons.prems(1) ns] by simp
qed

lemma removedAll_unique:
  assumes "removedAll pat s r" "pat \<noteq> []"
  shows "r = stripAll pat s"
proof -
  from assms(1) obtain ps rest where
    s: "s = concat (map (\<lambda>p. p @ pat) ps) @ rest" and r: "r = concat ps @ rest"
    and a: "list_all (\<lambda>p. \<not> sublist pat (p @ butlast pat)) ps" and n: "\<not> sublist pat rest"
    unfolding removedAll_def by blast
  have "list_all (\<lambda>p. \<not> sublist pat (p @ butlast pat)) ps \<Longrightarrow>
     stripAll pat (concat (map (\<lambda>p. p @ pat) ps) @ rest) = concat ps @ rest"
  proof (induction ps)
    case Nil
    show ?case using n by (simp add: stripAll_keep)
  next
    case (Cons p ps)
    then have np: "\<not> sublist pat (p @ butlast pat)"
      and rest: "stripAll pat (concat (map (\<lambda>p. p @ pat) ps) @ rest) = concat ps @ rest"
      by simp_all
    have "stripAll pat (p @ pat @ (concat (map (\<lambda>p. p @ pat) ps) @ rest)) =
        p @ stripAll pat (concat (map (\<lambda>p. p @ pat) ps) @ rest)"
      using assms(2) np by (rule stripAll_piece)
    then show ?case using rest by simp
  qed
  with a s r show ?thesis by simp
qed

lemma trim_trimmedFrom: "trimmedFrom s (trim s)"
proof -
  let ?t = "dropWhile isWhiteSpace s"
  let ?a = "takeWhile isWhiteSpace s"
  let ?b = "rev (takeWhile isWhiteSpace (rev ?t))"
  have "trim s @ ?b =
      rev (takeWhile isWhiteSpace (rev ?t) @ dropWhile isWhiteSpace (rev ?t))"
    by (simp only: trim_def rev_append)
  also have "\<dots> = rev (rev ?t)" by (simp only: takeWhile_dropWhile_id)
  also have "\<dots> = ?t" by (simp only: rev_rev_ident)
  finally have t: "trim s @ ?b = ?t" .
  have "s = ?a @ ?t" by simp
  then have "s = ?a @ trim s @ ?b" by (simp only: t)
  moreover have "list_all isWhiteSpace ?a" by (rule list_all_takeWhile)
  moreover have "list_all isWhiteSpace ?b"
    using list_all_takeWhile [of isWhiteSpace "rev ?t"] by (simp add: list_all_iff)
  ultimately show ?thesis
    unfolding trimmedFrom_def using trim_no_leading [of s] trim_no_trailing [of s] by blast
qed

lemma dropWhile_all: "list_all P a \<Longrightarrow> dropWhile P (a @ xs) = dropWhile P xs"
  by (induction a) simp_all

lemma trimmedFrom_unique:
  assumes "trimmedFrom s r"
  shows "r = trim s"
proof -
  from assms obtain a b where s: "s = a @ r @ b"
    and wa: "list_all isWhiteSpace a" and wb: "list_all isWhiteSpace b"
    and nl: "\<not> startsWithWhiteSpace r" and nt: "\<not> endsWithWhiteSpace r"
    unfolding trimmedFrom_def by blast
  have d1: "dropWhile isWhiteSpace s = dropWhile isWhiteSpace (r @ b)"
    unfolding s using wa by (rule dropWhile_all)
  show ?thesis
  proof (cases r)
    case Nil
    then have "dropWhile isWhiteSpace s = []"
      using d1 wb by (simp add: list_all_iff)
    then have "trim s = []" by (simp only: trim_def rev.simps dropWhile.simps)
    with Nil show ?thesis by simp
  next
    case (Cons c cs)
    with nl have "\<not> isWhiteSpace c" by (simp add: startsWithWhiteSpace_def)
    then have d2: "dropWhile isWhiteSpace s = r @ b" using d1 Cons by simp
    have rb: "list_all isWhiteSpace (rev b)" using wb by (simp add: list_all_iff)
    have "rev r \<noteq> []" using Cons by simp
    then obtain e es where re: "rev r = e # es" by (cases "rev r") auto
    with nt have "\<not> isWhiteSpace e" by (simp add: endsWithWhiteSpace_def startsWithWhiteSpace_def)
    then have "dropWhile isWhiteSpace (rev r) = rev r" using re by simp
    then have "dropWhile isWhiteSpace (rev b @ rev r) = rev r"
      using dropWhile_all [OF rb, of "rev r"] by simp
    then have "trim s = r" unfolding trim_def d2 by simp
    then show ?thesis by simp
  qed
qed

lemma cleanup_cleaned: "cleaned raw (cleanup raw)"
proof -
  have "removedAll (js ''```glsl'') raw (stripAll (js ''```glsl'') raw)"
    by (rule stripAll_removedAll) simp
  moreover have "removedAll (js ''```'') (stripAll (js ''```glsl'') raw)
      (stripAll (js ''```'') (stripAll (js ''```glsl'') raw))"
    by (rule stripAll_removedAll) simp
  moreover have "trimmedFrom (stripAll (js ''```'') (stripAll (js ''```glsl'') raw)) (cleanup raw)"
    unfolding cleanup_def by (rule trim_trimmedFrom)
  ultimately show ?thesis unfolding cleaned_def by blast
qed

lemma cleaned_unique: "cleaned raw r \<Longrightarrow> r = cleanup raw"
proof -
  assume "cleaned raw r"
  then obtain t1 t2 where a: "removedAll (js ''```glsl'') raw t1"
    and b: "removedAll (js ''```'') t1 t2" and c: "trimmedFrom t2 r"
    unfolding cleaned_def by blast
  have "t1 = stripAll (js ''```glsl'') raw" using a by (rule removedAll_unique) simp
  moreover have "t2 = stripAll (js ''```'') t1" using b by (rule removedAll_unique) simp
  moreover have "r = trim t2" using c by (rule trimmedFrom_unique)
  ultimately show ?thesis by (simp only: cleanup_def)
qed

lemma cleanup_keep: "\<not> sublist (js ''```'') raw \<Longrightarrow> trimmedFrom raw (cleanup raw)"
proof -
  assume n: "\<not> sublist (js ''```'') raw"
  then have "\<not> sublist (js ''```glsl'') raw" using fence_in_glsl [of raw] by blast
  then have "stripAll (js ''```glsl'') raw = raw" by (rule stripAll_keep)
  moreover have "stripAll (js ''```'') raw = raw" using n by (rule stripAll_keep)
  ultimately have "cleanup raw = trim raw" by (simp only: cleanup_def)
  then show ?thesis by (simp only: trim_trimmedFrom)
qed

text \<open>
  C10. For every response of the AI model, the string that \<open>generateShaderFromPrompt\<close>
  resolves to, and the one \<open>fixShaderCode\<close> resolves to when the AI call succeeds, is
  the text of the response (the empty string for the first, the given source for the
  second, when the response has no text or an empty one) with every \<open>```glsl\<close> removed,
  then every \<open>```\<close> removed, then trimmed, and it is the only such string. It contains
  neither three backticks in a row nor the marker of a GLSL code fence, and neither
  begins nor ends with whitespace. A response without three backticks in a row comes
  back as it is, but for the whitespace at its two ends.
\<close>

theorem ai_service_output_clean:
  "(\<exists>s. generateShaderFromPrompt prompt (Response t) = Inr s
        \<and> cleaned (case t of None \<Rightarrow> [] | Some x \<Rightarrow> x) s
        \<and> (\<forall>r. cleaned (case t of None \<Rightarrow> [] | Some x \<Rightarrow> x) r \<longrightarrow> r = s)
        \<and> \<not> sublist (js ''```'') s \<and> \<not> sublist (js ''```glsl'') s
        \<and> \<not> startsWithWhiteSpace s \<and> \<not> endsWithWhiteSpace s)
   \<and> (\<exists>s. fixShaderCode source errorMsg (Response t) = Inr s
        \<and> cleaned (case t of None \<Rightarrow> source | Some x \<Rightarrow> if x = [] then source else x) s
        \<and> (\<forall>r. cleaned (case t of None \<Rightarrow> source | Some x \<Rightarrow> if x = [] then source else x) r
               \<longrightarrow> r = s)
        \<and> \<not> sublist (js ''```'') s \<and> \<not> sublist (js ''```glsl'') s
        \<and> \<not> startsWithWhiteSpace s \<and> \<not> endsWithWhiteSpace s)
   \<and> (y \<noteq> [] \<and> \<not> sublist (js ''```'') y \<longrightarrow>
        (\<exists>s. generateShaderFromPrompt prompt (Response (Some y)) = Inr s \<and> trimmedFrom y s)
        \<and> (\<exists>s. fixShaderCode source errorMsg (Response (Some y)) = Inr s \<and> trimmedFrom y s))"
proof (intro conjI impI)
  let ?g = "case t of None \<Rightarrow> [] | Some x \<Rightarrow> x"
  have o: "orElse t [] = ?g" by (simp add: orElse_def split: option.splits)
  have "generateShaderFromPrompt prompt (Response t) = Inr (cleanup ?g)"
    by (simp add: generateShaderFromPrompt_def promptBody_def o)
  moreover have "cleaned ?g (cleanup ?g)" by (rule cleanup_cleaned)
  moreover have "\<forall>r. cleaned ?g r \<longrightarrow> r = cleanup ?g" using cleaned_unique by blast
  ultimately show "\<exists>s. generateShaderFromPrompt prompt (Response t) = Inr s
        \<and> cleaned ?g s \<and> (\<forall>r. cleaned ?g r \<longrightarrow> r = s)
        \<and> \<not> sublist (js ''```'') s \<and> \<not> sublist (js ''```glsl'') s
        \<and> \<not> startsWithWhiteSpace s \<and> \<not> endsWithWhiteSpace s"
    using cleanup_clean [of ?g] by blast
next
  let ?f = "case t of None \<Rightarrow> source | Some x \<Rightarrow> if x = [] then source else x"
  have o: "orElse t source = ?f" by (simp add: orElse_def)
  have "fixShaderCode source errorMsg (Response t) = Inr (cleanup ?f)"
    by (simp add: fixShaderCode_def fixBody_def o)
  moreover have "cleaned ?f (cleanup ?f)" by (rule cleanup_cleaned)
  moreover have "\<forall>r. cleaned ?f r \<longrightarrow> r = cleanup ?f" using cleaned_unique by blast
  ultimately show "\<exists>s. fixShaderCode source errorMsg (Response t) = Inr s
        \<and> cleaned ?f s \<and> (\<forall>r. cleaned ?f r \<longrightarrow> r = s)
        \<and> \<not> sublist (js ''```'') s \<and> \<not> sublist (js ''```glsl'') s
        \<and> \<not> startsWithWhiteSpace s \<and> \<not> endsWithWhiteSpace s"
    using cleanup_clean [of ?f] by blast
next
  assume a: "y \<noteq> [] \<and> \<not> sublist (js ''```'') y"
  then have k: "trimmedFrom y (cleanup y)" by (simp add: cleanup_keep)
  have "generateShaderFromPrompt prompt (Response (Some y)) = Inr (cleanup y)"
    using a by (simp add: generateShaderFromPrompt_def promptBody_def orElse_def)
  with k show "\<exists>s. generateShaderFromPrompt prompt (Response (Some y)) = Inr s \<and> trimmedFrom y s"
    by blast
  have "fixShaderCode source errorMsg (Response (Some y)) = Inr (cleanup y)"
    using a by (simp add: fixShaderCode_def fixBody_def orElse_def)
  with k show "\<exists>s. fixShaderCode source errorMsg (Response (Some y)) = Inr s \<and> trimmedFrom y s"
    by blast
qed

text \<open>
  C10 at a response that wraps its code in a GLSL fence, and at a response without
  backticks and with a blank at each end.
\<close>

theorem ai_service_output_clean_witness:
  "generateShaderFromPrompt (js ''p'') (Response (Some (js ''```glsl x ```''))) = Inr (js ''x'')
   \<and> cleaned (js ''```glsl x ```'') (js ''x'')
   \<and> fixShaderCode (js ''c'') (js ''e'') (Response (Some (js ''```glsl x ```''))) = Inr (js ''x'')
   \<and> js '' y '' \<noteq> [] \<and> \<not> sublist (js ''```'') (js '' y '')
   \<and> generateShaderFromPrompt (js ''p'') (Response (Some (js '' y ''))) = Inr (js ''y'')
   \<and> trimmedFrom (js '' y '') (js ''y'')"
proof -
  note t = ai_service_output_clean
    [of "js ''p''" "Some (js ''```glsl x ```'')" "js ''c''" "js ''e''" "js '' y ''"]
  have c1: "cleanup (js ''```glsl x ```'') = js ''x''"
    by (simp add: cleanup_def trim_def isWhiteSpace_def)
  have c2: "cleanup (js '' y '') = js ''y''"
    by (simp add: cleanup_def trim_def isWhiteSpace_def)
  have g1: "generateShaderFromPrompt (js ''p'') (Response (Some (js ''```glsl x ```''))) = Inr (js ''x'')"
    using c1 by (simp add: generateShaderFromPrompt_def promptBody_def orElse_def)
  have f1: "fixShaderCode (js ''c'') (js ''e'') (Response (Some (js ''```glsl x ```''))) = Inr (js ''x'')"
    using c1 by (simp add: fixShaderCode_def fixBody_def orElse_def)
  have g2: "generateShaderFromPrompt (js ''p'') (Response (Some (js '' y ''))) = Inr (js ''y'')"
    using c2 by (simp add: generateShaderFromPrompt_def promptBody_def orElse_def)
  from t obtain s where
    "generateShaderFromPrompt (js ''p'') (Response (Some (js ''```glsl x ```''))) = Inr s"
    and "cleaned (case Some (js ''```glsl x ```'') of None \<Rightarrow> [] | Some x \<Rightarrow> x) s"
    by blast
  with g1 have k1: "cleaned (js ''```glsl x ```'') (js ''x'')" by simp
  have h: "js '' y '' \<noteq> [] \<and> \<not> sublist (js ''```'') (js '' y '')"
    by (simp add: sublist_Cons_right)
  with t obtain s' where
    "generateShaderFromPrompt (js ''p'') (Response (Some (js '' y ''))) = Inr s'"
    and "trimmedFrom (js '' y '') s'"
    by blast
  with g2 have k2: "trimmedFrom (js '' y '') (js ''y'')" by simp
  from g1 k1 f1 h g2 k2 show ?thesis by blast
qed

section \<open>Properties of the compile effect\<close>

lemma compileShader_Some:
  "fst (compileShader source ty outcome) = Some sh \<longleftrightarrow>
     outcome = CompileStatusTrue \<and> sh = \<lparr>shaderType = ty, shaderSource = source\<rparr>"
  by (auto simp: compileShader_def split: compile_outcome.splits option.splits)

lemma compileShader_True:
  "compileShader source ty CompileStatusTrue = (Some \<lparr>shaderType = ty, shaderSource = source\<rparr>, [])"
  by (simp add: compileShader_def)

lemma compileShader_not_True:
  "outcome \<noteq> CompileStatusTrue \<Longrightarrow> fst (compileShader source ty outcome) = None"
  by (cases outcome) (simp_all add: compileShader_def)

lemma compileShader_vertex_silent:
  "snd (compileShader source VERTEX_SHADER outcome) = []"
  by (simp add: compileShader_def split: compile_outcome.splits option.splits)

lemma compileEffect_no_gl: "\<not> glRef st \<Longrightarrow> compileEffect src outcome st = st"
  by (simp add: compileEffect_def)

lemma compileEffect_success:
  assumes "glRef st" "succeeds outcome"
  shows "compileEffect src outcome st =
     st\<lparr>reported := reported st @ [None],
        created := Suc (created st),
        linkCalls := Suc (linkCalls st),
        deleted := deleted st @ (case programRef st of None \<Rightarrow> [] | Some old \<Rightarrow> [old]),
        programRef := Some \<lparr>handle = created st, vertexSource = DEFAULT_VERTEX_SHADER,
                              fragmentSource = src\<rparr>\<rparr>"
  using assms by (simp add: compileEffect_def succeeds_def compileShader_True)

lemma compileEffect_vs_fails:
  assumes "glRef st" "vsOutcome outcome \<noteq> CompileStatusTrue"
  shows "compileEffect src outcome st =
     st\<lparr>reported := reported st @ snd (compileShader src FRAGMENT_SHADER (fsOutcome outcome))\<rparr>"
proof -
  obtain e1 where v: "compileShader DEFAULT_VERTEX_SHADER VERTEX_SHADER (vsOutcome outcome) = (None, e1)"
    using compileShader_not_True [OF assms(2)] by (metis prod.collapse)
  have "e1 = []" using compileShader_vertex_silent [of DEFAULT_VERTEX_SHADER "vsOutcome outcome"] v by simp
  with v assms(1) show ?thesis
    by (simp add: compileEffect_def split: prod.splits)
qed

lemma compileEffect_fs_fails:
  assumes "glRef st" "fsOutcome outcome \<noteq> CompileStatusTrue"
  shows "compileEffect src outcome st =
     st\<lparr>reported := reported st @ snd (compileShader src FRAGMENT_SHADER (fsOutcome outcome))\<rparr>"
proof -
  obtain e2 where f: "compileShader src FRAGMENT_SHADER (fsOutcome outcome) = (None, e2)"
    using compileShader_not_True [OF assms(2)] by (metis prod.collapse)
  obtain vs e1 where v: "compileShader DEFAULT_VERTEX_SHADER VERTEX_SHADER (vsOutcome outcome) = (vs, e1)"
    by (metis prod.collapse)
  have "e1 = []" using compileShader_vertex_silent [of DEFAULT_VERTEX_SHADER "vsOutcome outcome"] v by simp
  with v f assms(1) show ?thesis
    by (simp add: compileEffect_def Let_def split: option.splits)
qed

lemma compileEffect_no_program:
  assumes "glRef st" "vsOutcome outcome = CompileStatusTrue" "fsOutcome outcome = CompileStatusTrue"
    "\<not> createProgramOk outcome"
  shows "compileEffect src outcome st = st"
  using assms by (simp add: compileEffect_def compileShader_True)

lemma compileEffect_link_fails:
  assumes "glRef st" "vsOutcome outcome = CompileStatusTrue" "fsOutcome outcome = CompileStatusTrue"
    "createProgramOk outcome" "\<not> linkStatus outcome"
  shows "compileEffect src outcome st =
     st\<lparr>created := Suc (created st), linkCalls := Suc (linkCalls st),
        console := console st @ [programInfoLog outcome]\<rparr>"
  using assms by (simp add: compileEffect_def compileShader_True)

lemma compileEffect_failure:
  assumes "\<not> succeeds outcome"
  shows "programRef (compileEffect src outcome st) = programRef st
    \<and> deleted (compileEffect src outcome st) = deleted st
    \<and> created st \<le> created (compileEffect src outcome st)"
proof (cases "glRef st")
  case False
  then show ?thesis by (simp add: compileEffect_no_gl)
next
  case gl: True
  show ?thesis
  proof (cases "vsOutcome outcome = CompileStatusTrue")
    case False
    then show ?thesis using gl by (simp add: compileEffect_vs_fails)
  next
    case vs: True
    show ?thesis
    proof (cases "fsOutcome outcome = CompileStatusTrue")
      case False
      then show ?thesis using gl by (simp add: compileEffect_fs_fails)
    next
      case fs: True
      show ?thesis
      proof (cases "createProgramOk outcome")
        case False
        then show ?thesis using gl vs fs by (simp add: compileEffect_no_program)
      next
        case True
        with assms vs fs have "\<not> linkStatus outcome" by (simp add: succeeds_def)
        then show ?thesis using gl vs fs True by (simp add: compileEffect_link_fails)
      qed
    qed
  qed
qed

lemma compileEffect_glRef: "glRef (compileEffect src outcome st) = glRef st"
proof (cases "glRef st")
  case False
  then show ?thesis by (simp add: compileEffect_no_gl)
next
  case gl: True
  show ?thesis
  proof (cases "succeeds outcome")
    case True
    then show ?thesis using gl by (simp add: compileEffect_success)
  next
    case False
    then show ?thesis using gl
      by (auto simp: compileEffect_def Let_def split: prod.splits option.splits)
  qed
qed

lemma compileEffects_snoc:
  "compileEffects (attempts @ [(src, outcome)]) st = compileEffect src outcome (compileEffects attempts st)"
  by (simp add: compileEffects_def)

lemma compileEffects_Nil: "compileEffects [] st = st"
  by (simp add: compileEffects_def)

lemma compileEffects_append:
  "compileEffects (as @ bs) st = compileEffects bs (compileEffects as st)"
  by (simp add: compileEffects_def)

lemma compileEffects_glRef: "glRef (compileEffects attempts st) = glRef st"
  by (induction attempts rule: rev_induct)
     (auto simp: compileEffects_Nil compileEffects_snoc compileEffect_glRef)

lemma lastSuccess_Nil: "lastSuccess [] = None"
  by (simp add: lastSuccess_def)

lemma lastSuccess_snoc:
  "lastSuccess (attempts @ [(src, outcome)]) = (if succeeds outcome then Some src else lastSuccess attempts)"
proof -
  have c: "\<And>xs :: (jsstring \<times> gl_outcome) list. xs \<noteq> [] \<Longrightarrow>
      (case xs of [] \<Rightarrow> None | a # as \<Rightarrow> Some (fst (last (a # as)))) = Some (fst (last xs))"
    by (case_tac xs) simp_all
  show ?thesis
  proof (cases "succeeds outcome")
    case True
    then have "filter (\<lambda>(src, outcome). succeeds outcome) (attempts @ [(src, outcome)]) =
        filter (\<lambda>(src, outcome). succeeds outcome) attempts @ [(src, outcome)]"
      by simp
    then show ?thesis using True unfolding lastSuccess_def
      by (simp only: c [of "filter (\<lambda>(src, outcome). succeeds outcome) attempts @ [(src, outcome)]"]
            snoc_eq_iff_butlast last_snoc fst_conv if_True append_is_Nil_conv list.distinct simp_thms)
  next
    case False
    then show ?thesis by (simp add: lastSuccess_def)
  qed
qed

lemma active_fragment:
  "glRef st \<Longrightarrow>
   map_option fragmentSource (programRef (compileEffects attempts st)) =
     (case lastSuccess attempts of
        None \<Rightarrow> map_option fragmentSource (programRef st)
      | Some src \<Rightarrow> Some src)"
proof (induction attempts rule: rev_induct)
  case Nil
  show ?case by (simp add: compileEffects_Nil lastSuccess_Nil)
next
  case (snoc a attempts)
  obtain src outcome where a: "a = (src, outcome)" by (cases a)
  have gl: "glRef (compileEffects attempts st)" using snoc.prems by (simp add: compileEffects_glRef)
  show ?case
  proof (cases "succeeds outcome")
    case True
    then show ?thesis unfolding a compileEffects_snoc lastSuccess_snoc
      using gl by (simp add: compileEffect_success)
  next
    case False
    then show ?thesis unfolding a compileEffects_snoc lastSuccess_snoc
      using snoc.IH [OF snoc.prems] by (simp add: compileEffect_failure)
  qed
qed


lemma currentError_success:
  "glRef st \<Longrightarrow> succeeds outcome \<Longrightarrow> currentError (compileEffect src outcome st) = None"
  by (simp add: compileEffect_success currentError_def)

lemma compileEffect_created_mono: "created st \<le> created (compileEffect src outcome st)"
proof (cases "glRef st \<and> succeeds outcome")
  case True
  then show ?thesis by (simp add: compileEffect_success)
next
  case False
  then show ?thesis
    using compileEffect_failure [of outcome src st] compileEffect_no_gl [of st src outcome]
    by auto
qed

lemma compileEffects_created_mono:
  "created st \<le> created (compileEffects attempts st)"
proof (induction attempts rule: rev_induct)
  case Nil
  show ?case by (simp add: compileEffects_Nil)
next
  case (snoc a attempts)
  obtain src outcome where a: "a = (src, outcome)" by (cases a)
  show ?case unfolding a compileEffects_snoc
    using snoc.IH compileEffect_created_mono [of "compileEffects attempts st" src outcome]
    by (rule order_trans)
qed

lemma handles_bounded:
  "(\<forall>p\<in>set (deleted (compileEffects attempts (mounted gl))).
       handle p < created (compileEffects attempts (mounted gl)))
   \<and> (\<forall>p. programRef (compileEffects attempts (mounted gl)) = Some p \<longrightarrow>
         handle p < created (compileEffects attempts (mounted gl))
         \<and> p \<notin> set (deleted (compileEffects attempts (mounted gl))))"
proof (induction attempts rule: rev_induct)
  case Nil
  show ?case by (simp add: compileEffects_Nil mounted_def)
next
  case (snoc a attempts)
  obtain src outcome where a: "a = (src, outcome)" by (cases a)
  let ?st = "compileEffects attempts (mounted gl)"
  show ?case
  proof (cases "glRef ?st \<and> succeeds outcome")
    case True
    then have "compileEffect src outcome ?st =
       ?st\<lparr>reported := reported ?st @ [None],
          created := Suc (created ?st),
          linkCalls := Suc (linkCalls ?st),
          deleted := deleted ?st @ (case programRef ?st of None \<Rightarrow> [] | Some old \<Rightarrow> [old]),
          programRef := Some \<lparr>handle = created ?st, vertexSource = DEFAULT_VERTEX_SHADER,
                                fragmentSource = src\<rparr>\<rparr>"
      by (simp add: compileEffect_success)
    then show ?thesis unfolding a compileEffects_snoc
      using snoc.IH by (auto split: option.splits)
  next
    case False
    then have "programRef (compileEffect src outcome ?st) = programRef ?st
      \<and> deleted (compileEffect src outcome ?st) = deleted ?st
      \<and> created ?st \<le> created (compileEffect src outcome ?st)"
      using compileEffect_failure [of outcome src ?st] compileEffect_no_gl [of ?st src outcome]
      by auto
    then show ?thesis unfolding a compileEffects_snoc
      using snoc.IH by (metis order_less_le_trans)
  qed
qed

lemma destroyed_once:
  assumes "programRef (compileEffects as1 (mounted gl)) = Some p"
  shows "count_list (deleted (compileEffects (as1 @ as2) (mounted gl))) p =
     (if programRef (compileEffects (as1 @ as2) (mounted gl)) = Some p then 0 else 1)"
proof (induction as2 rule: rev_induct)
  case Nil
  have "p \<notin> set (deleted (compileEffects as1 (mounted gl)))"
    using handles_bounded [of as1 gl] assms by blast
  then show ?case using assms by (simp add: count_list_0_iff)
next
  case (snoc a as2)
  obtain src outcome where a: "a = (src, outcome)" by (cases a)
  let ?st = "compileEffects (as1 @ as2) (mounted gl)"
  have step: "compileEffects (as1 @ as2 @ [a]) (mounted gl) = compileEffect src outcome ?st"
    unfolding a using compileEffects_snoc [of "as1 @ as2" src outcome "mounted gl"] by simp
  show ?case
  proof (cases "glRef ?st \<and> succeeds outcome")
    case True
    then have eq: "compileEffect src outcome ?st =
       ?st\<lparr>reported := reported ?st @ [None],
          created := Suc (created ?st),
          linkCalls := Suc (linkCalls ?st),
          deleted := deleted ?st @ (case programRef ?st of None \<Rightarrow> [] | Some old \<Rightarrow> [old]),
          programRef := Some \<lparr>handle = created ?st, vertexSource = DEFAULT_VERTEX_SHADER,
                                fragmentSource = src\<rparr>\<rparr>"
      by (simp add: compileEffect_success)
    have "handle p < created (compileEffects as1 (mounted gl))"
      using handles_bounded [of as1 gl] assms by blast
    moreover have "created (compileEffects as1 (mounted gl)) \<le> created ?st"
      using compileEffects_created_mono [of "compileEffects as1 (mounted gl)" as2]
      by (simp add: compileEffects_append)
    ultimately have new: "handle p \<noteq> created ?st" by simp
    show ?thesis unfolding step eq using snoc.IH new
      by (auto split: option.splits)
  next
    case False
    then have "programRef (compileEffect src outcome ?st) = programRef ?st
      \<and> deleted (compileEffect src outcome ?st) = deleted ?st"
      using compileEffect_failure [of outcome src ?st] compileEffect_no_gl [of ?st src outcome]
      by auto
    then show ?thesis unfolding step using snoc.IH by simp
  qed
qed

lemma three_attempts:
  assumes "succeeds o1" "\<not> succeeds o2" "succeeds o3"
  shows "programRef (compileEffects [(s1, o1)] (mounted True)) =
           Some \<lparr>handle = 0, vertexSource = DEFAULT_VERTEX_SHADER, fragmentSource = s1\<rparr>
    \<and> map_option fragmentSource
         (programRef (compileEffects [(s1, o1), (s2, o2), (s3, o3)] (mounted True))) = Some s3
    \<and> deleted (compileEffects [(s1, o1), (s2, o2), (s3, o3)] (mounted True)) =
         [\<lparr>handle = 0, vertexSource = DEFAULT_VERTEX_SHADER, fragmentSource = s1\<rparr>]"
proof -
  let ?st1 = "compileEffect s1 o1 (mounted True)"
  let ?st2 = "compileEffect s2 o2 ?st1"
  let ?st3 = "compileEffect s3 o3 ?st2"
  have gl0: "glRef (mounted True)" by (simp add: mounted_def)
  have p1: "programRef ?st1 =
      Some \<lparr>handle = 0, vertexSource = DEFAULT_VERTEX_SHADER, fragmentSource = s1\<rparr>"
    and d1: "deleted ?st1 = []"
    using assms(1) gl0 by (simp_all add: compileEffect_success) (simp_all add: mounted_def)
  have p2: "programRef ?st2 = programRef ?st1" and d2: "deleted ?st2 = deleted ?st1"
    using compileEffect_failure [OF assms(2), of s2 ?st1] by simp_all
  have gl2: "glRef ?st2" using gl0 by (simp add: compileEffect_glRef)
  have p3: "map_option fragmentSource (programRef ?st3) = Some s3"
    and d3: "deleted ?st3 = deleted ?st2 @ (case programRef ?st2 of None \<Rightarrow> [] | Some old \<Rightarrow> [old])"
    using assms(3) gl2 by (simp_all add: compileEffect_success)
  have r1: "compileEffects [(s1, o1)] (mounted True) = ?st1"
    and r3: "compileEffects [(s1, o1), (s2, o2), (s3, o3)] (mounted True) = ?st3"
    by (simp_all add: compileEffects_def)
  show ?thesis unfolding r1 r3 using p1 p3 d3 by (simp add: p2 d2 d1)
qed

text \<open>
  C1. For every sequence of runs of the compile effect on a component that has its
  context, the fragment source of the active program is that of the last attempt that
  succeeded (both stages compiled, the program was created and linked), and the program is
  the earlier one when no attempt succeeded. An attempt that does not succeed, whichever
  step fails, leaves \<open>programRef\<close> as it was and deletes no program.
\<close>

theorem active_program_is_last_success:
  "(glRef st \<longrightarrow>
      map_option fragmentSource (programRef (compileEffects attempts st)) =
        (case lastSuccess attempts of
           None \<Rightarrow> map_option fragmentSource (programRef st)
         | Some src \<Rightarrow> Some src))
   \<and> (\<not> succeeds outcome \<longrightarrow>
        programRef (compileEffect source outcome st) = programRef st
        \<and> deleted (compileEffect source outcome st) = deleted st)"
  using active_fragment [of st attempts] compileEffect_failure [of outcome source st]
  by blast

text \<open>C1 at a successful attempt followed by a failed one, and at a failed link.\<close>

theorem active_program_is_last_success_witness:
  "glRef (mounted True)
   \<and> map_option fragmentSource (programRef (compileEffects
        [(js ''a'', \<lparr>vsOutcome = CompileStatusTrue, fsOutcome = CompileStatusTrue,
                     createProgramOk = True, linkStatus = True, programInfoLog = None\<rparr>),
         (js ''b'', \<lparr>vsOutcome = CompileStatusTrue,
                     fsOutcome = CompileStatusFalse (Some (js ''ERROR: 0:1: x'')),
                     createProgramOk = True, linkStatus = True, programInfoLog = None\<rparr>)]
        (mounted True))) = Some (js ''a'')
   \<and> \<not> succeeds \<lparr>vsOutcome = CompileStatusTrue, fsOutcome = CompileStatusTrue,
                    createProgramOk = True, linkStatus = False,
                    programInfoLog = Some (js ''link'')\<rparr>
   \<and> programRef (compileEffect (js ''c'')
         \<lparr>vsOutcome = CompileStatusTrue, fsOutcome = CompileStatusTrue,
          createProgramOk = True, linkStatus = False, programInfoLog = Some (js ''link'')\<rparr>
         (mounted True)) = None"
proof -
  let ?ok = "\<lparr>vsOutcome = CompileStatusTrue, fsOutcome = CompileStatusTrue,
               createProgramOk = True, linkStatus = True, programInfoLog = None\<rparr>"
  let ?bad = "\<lparr>vsOutcome = CompileStatusTrue,
                fsOutcome = CompileStatusFalse (Some (js ''ERROR: 0:1: x'')),
                createProgramOk = True, linkStatus = True, programInfoLog = None\<rparr>"
  let ?link = "\<lparr>vsOutcome = CompileStatusTrue, fsOutcome = CompileStatusTrue,
                 createProgramOk = True, linkStatus = False,
                 programInfoLog = Some (js ''link'')\<rparr>"
  have gl: "glRef (mounted True)" by (simp add: mounted_def)
  have l: "lastSuccess [(js ''a'', ?ok), (js ''b'', ?bad)] = Some (js ''a'')"
    by (simp add: lastSuccess_def succeeds_def)
  have n: "\<not> succeeds ?link" by (simp add: succeeds_def)
  have p: "programRef (mounted True) = None" by (simp add: mounted_def)
  note t = active_program_is_last_success
    [of "mounted True" "[(js ''a'', ?ok), (js ''b'', ?bad)]" ?link "js ''c''"]
  from t gl l have "map_option fragmentSource (programRef (compileEffects
        [(js ''a'', ?ok), (js ''b'', ?bad)] (mounted True))) = Some (js ''a'')"
    by (simp only: option.case simp_thms)
  moreover from t n p have "programRef (compileEffect (js ''c'') ?link (mounted True)) = None"
    by (simp only: simp_thms)
  ultimately show ?thesis using gl n by (simp only: simp_thms)
qed


text \<open>
  C3, as the code has it. When both stages compile and the link fails, the effect calls
  \<open>console.error\<close> with the program's info log and returns: \<open>onCompileError\<close> is not
  called, so the error consumer keeps what it had, and the active program is neither
  replaced nor deleted.
\<close>

theorem link_failure_goes_to_console:
  assumes "glRef st" "vsOutcome outcome = CompileStatusTrue"
    "fsOutcome outcome = CompileStatusTrue" "createProgramOk outcome" "\<not> linkStatus outcome"
  shows "reported (compileEffect source outcome st) = reported st
    \<and> currentError (compileEffect source outcome st) = currentError st
    \<and> console (compileEffect source outcome st) = console st @ [programInfoLog outcome]
    \<and> programRef (compileEffect source outcome st) = programRef st
    \<and> deleted (compileEffect source outcome st) = deleted st"
  using assms by (simp add: compileEffect_link_fails currentError_def)

text \<open>C3 at a failed link on a fresh component.\<close>

theorem link_failure_goes_to_console_witness:
  "glRef (mounted True)
   \<and> console (compileEffect (js ''void main() {}'')
        \<lparr>vsOutcome = CompileStatusTrue, fsOutcome = CompileStatusTrue,
         createProgramOk = True, linkStatus = False,
         programInfoLog = Some (js ''link failed'')\<rparr> (mounted True)) =
       [Some (js ''link failed'')]
   \<and> reported (compileEffect (js ''void main() {}'')
        \<lparr>vsOutcome = CompileStatusTrue, fsOutcome = CompileStatusTrue,
         createProgramOk = True, linkStatus = False,
         programInfoLog = Some (js ''link failed'')\<rparr> (mounted True)) = []"
proof -
  let ?o = "\<lparr>vsOutcome = CompileStatusTrue, fsOutcome = CompileStatusTrue,
         createProgramOk = True, linkStatus = False,
         programInfoLog = Some (js ''link failed'')\<rparr>"
  have gl: "glRef (mounted True)" by (simp add: mounted_def)
  have "reported (compileEffect (js ''void main() {}'') ?o (mounted True)) = reported (mounted True)
    \<and> currentError (compileEffect (js ''void main() {}'') ?o (mounted True)) = currentError (mounted True)
    \<and> console (compileEffect (js ''void main() {}'') ?o (mounted True)) =
        console (mounted True) @ [programInfoLog ?o]
    \<and> programRef (compileEffect (js ''void main() {}'') ?o (mounted True)) = programRef (mounted True)
    \<and> deleted (compileEffect (js ''void main() {}'') ?o (mounted True)) = deleted (mounted True)"
    by (rule link_failure_goes_to_console [OF gl]) simp_all
  then show ?thesis using gl by (simp add: mounted_def)
qed

text \<open>
  C3 as stated fails: after a failed link on a fresh component nothing has been reported
  to the error consumer, and its error is still null, not a diagnostic with line 0.
\<close>

theorem link_failure_counterexample:
  "reported (compileEffect (js ''void main() {}'')
        \<lparr>vsOutcome = CompileStatusTrue, fsOutcome = CompileStatusTrue,
         createProgramOk = True, linkStatus = False,
         programInfoLog = Some (js ''link failed'')\<rparr> (mounted True)) = []
   \<and> currentError (compileEffect (js ''void main() {}'')
        \<lparr>vsOutcome = CompileStatusTrue, fsOutcome = CompileStatusTrue,
         createProgramOk = True, linkStatus = False,
         programInfoLog = Some (js ''link failed'')\<rparr> (mounted True)) = None"
  by (simp add: compileEffect_def compileShader_def mounted_def currentError_def)

text \<open>
  C4, as the code has it. When the vertex stage does not compile, no program is created
  and \<open>gl.linkProgram\<close> is not called, and the active program is neither replaced nor
  deleted. \<open>compileShader\<close> calls \<open>onCompileError\<close> only for the fragment stage, so
  the vertex failure itself is not handed to the error consumer; the fragment stage is
  still compiled, and what the consumer receives in this attempt is what that stage
  reports.
\<close>

theorem vertex_failure_not_reported:
  assumes "glRef st" "vsOutcome outcome \<noteq> CompileStatusTrue"
  shows "linkCalls (compileEffect source outcome st) = linkCalls st
    \<and> created (compileEffect source outcome st) = created st
    \<and> programRef (compileEffect source outcome st) = programRef st
    \<and> deleted (compileEffect source outcome st) = deleted st
    \<and> snd (compileShader DEFAULT_VERTEX_SHADER VERTEX_SHADER (vsOutcome outcome)) = []
    \<and> reported (compileEffect source outcome st) =
        reported st @ snd (compileShader source FRAGMENT_SHADER (fsOutcome outcome))"
  using assms by (simp add: compileEffect_vs_fails compileShader_vertex_silent)

text \<open>C4 at a vertex stage that fails with a log while the fragment stage compiles.\<close>

theorem vertex_failure_not_reported_witness:
  "glRef (mounted True)
   \<and> CompileStatusFalse (Some (js ''ERROR: 0:2: syntax error'')) \<noteq> CompileStatusTrue
   \<and> linkCalls (compileEffect (js ''void main() {}'')
        \<lparr>vsOutcome = CompileStatusFalse (Some (js ''ERROR: 0:2: syntax error'')),
         fsOutcome = CompileStatusTrue, createProgramOk = True, linkStatus = True,
         programInfoLog = None\<rparr> (mounted True)) = 0
   \<and> reported (compileEffect (js ''void main() {}'')
        \<lparr>vsOutcome = CompileStatusFalse (Some (js ''ERROR: 0:2: syntax error'')),
         fsOutcome = CompileStatusTrue, createProgramOk = True, linkStatus = True,
         programInfoLog = None\<rparr> (mounted True)) = []"
proof -
  let ?o = "\<lparr>vsOutcome = CompileStatusFalse (Some (js ''ERROR: 0:2: syntax error'')),
         fsOutcome = CompileStatusTrue, createProgramOk = True, linkStatus = True,
         programInfoLog = None\<rparr>"
  have gl: "glRef (mounted True)" by (simp add: mounted_def)
  have "linkCalls (compileEffect (js ''void main() {}'') ?o (mounted True)) = linkCalls (mounted True)
    \<and> created (compileEffect (js ''void main() {}'') ?o (mounted True)) = created (mounted True)
    \<and> programRef (compileEffect (js ''void main() {}'') ?o (mounted True)) = programRef (mounted True)
    \<and> deleted (compileEffect (js ''void main() {}'') ?o (mounted True)) = deleted (mounted True)
    \<and> snd (compileShader DEFAULT_VERTEX_SHADER VERTEX_SHADER (vsOutcome ?o)) = []
    \<and> reported (compileEffect (js ''void main() {}'') ?o (mounted True)) =
        reported (mounted True) @ snd (compileShader (js ''void main() {}'') FRAGMENT_SHADER (fsOutcome ?o))"
    by (rule vertex_failure_not_reported [OF gl]) simp
  then show ?thesis using gl by (simp add: mounted_def compileShader_def)
qed

text \<open>
  C4 as stated fails: when the vertex stage fails and the fragment stage compiles, the
  error consumer is not called at all; when both fail, it receives the diagnostic of the
  fragment stage, here with line 7.
\<close>

theorem vertex_failure_counterexample:
  "reported (compileEffect (js ''void main() {}'')
        \<lparr>vsOutcome = CompileStatusFalse (Some (js ''ERROR: 0:2: syntax error'')),
         fsOutcome = CompileStatusTrue, createProgramOk = True, linkStatus = True,
         programInfoLog = None\<rparr> (mounted True)) = []
   \<and> reported (compileEffect (js ''void main() { x }'')
        \<lparr>vsOutcome = CompileStatusFalse (Some (js ''ERROR: 0:2: syntax error'')),
         fsOutcome = CompileStatusFalse (Some (js ''ERROR: 0:7: undeclared'')),
         createProgramOk = True, linkStatus = True,
         programInfoLog = None\<rparr> (mounted True)) =
       [Some \<lparr>line = Exact 7, message = js ''ERROR: 0:7: undeclared''\<rparr>]"
  by (simp add: compileEffect_def compileShader_def mounted_def extractDiagnostic_def
        matchAt_def isDigit_def parseInt_def decimal_def)

text \<open>
  C5. An attempt that succeeds installs the new program, deletes the program that was
  active before (and only that one), and sets the error of the consumer to null. Over any
  sequence of attempts from the mount, a program that was active at some moment has been
  deleted exactly once when it is no longer active, and never while it is active. When
  attempt 1 succeeds, attempt 2 fails and attempt 3 succeeds, the active program is the
  one of attempt 3 and the only program deleted, once, is the one of attempt 1.
\<close>

theorem success_replaces_program:
  "(glRef st \<and> succeeds outcome \<longrightarrow>
      programRef (compileEffect source outcome st) =
        Some \<lparr>handle = created st, vertexSource = DEFAULT_VERTEX_SHADER, fragmentSource = source\<rparr>
      \<and> deleted (compileEffect source outcome st) =
          deleted st @ (case programRef st of None \<Rightarrow> [] | Some old \<Rightarrow> [old])
      \<and> currentError (compileEffect source outcome st) = None)
   \<and> (programRef (compileEffects as1 (mounted gl)) = Some p \<longrightarrow>
        count_list (deleted (compileEffects (as1 @ as2) (mounted gl))) p =
          (if programRef (compileEffects (as1 @ as2) (mounted gl)) = Some p then 0 else 1))
   \<and> (succeeds o1 \<and> \<not> succeeds o2 \<and> succeeds o3 \<longrightarrow>
        programRef (compileEffects [(s1, o1)] (mounted True)) =
          Some \<lparr>handle = 0, vertexSource = DEFAULT_VERTEX_SHADER, fragmentSource = s1\<rparr>
        \<and> map_option fragmentSource
            (programRef (compileEffects [(s1, o1), (s2, o2), (s3, o3)] (mounted True))) = Some s3
        \<and> deleted (compileEffects [(s1, o1), (s2, o2), (s3, o3)] (mounted True)) =
            [\<lparr>handle = 0, vertexSource = DEFAULT_VERTEX_SHADER, fragmentSource = s1\<rparr>])"
proof (intro conjI impI)
  assume a: "glRef st \<and> succeeds outcome"
  then show "programRef (compileEffect source outcome st) =
        Some \<lparr>handle = created st, vertexSource = DEFAULT_VERTEX_SHADER, fragmentSource = source\<rparr>"
    by (simp add: compileEffect_success)
  from a show "deleted (compileEffect source outcome st) =
          deleted st @ (case programRef st of None \<Rightarrow> [] | Some old \<Rightarrow> [old])"
    by (simp add: compileEffect_success)
  from a show "currentError (compileEffect source outcome st) = None"
    by (simp add: currentError_success)
next
  assume "programRef (compileEffects as1 (mounted gl)) = Some p"
  then show "count_list (deleted (compileEffects (as1 @ as2) (mounted gl))) p =
          (if programRef (compileEffects (as1 @ as2) (mounted gl)) = Some p then 0 else 1)"
    by (rule destroyed_once)
next
  assume a: "succeeds o1 \<and> \<not> succeeds o2 \<and> succeeds o3"
  then have t: "programRef (compileEffects [(s1, o1)] (mounted True)) =
           Some \<lparr>handle = 0, vertexSource = DEFAULT_VERTEX_SHADER, fragmentSource = s1\<rparr>
    \<and> map_option fragmentSource
         (programRef (compileEffects [(s1, o1), (s2, o2), (s3, o3)] (mounted True))) = Some s3
    \<and> deleted (compileEffects [(s1, o1), (s2, o2), (s3, o3)] (mounted True)) =
         [\<lparr>handle = 0, vertexSource = DEFAULT_VERTEX_SHADER, fragmentSource = s1\<rparr>]"
    using three_attempts [of o1 o2 o3 s1 s2 s3] by blast
  from t show "programRef (compileEffects [(s1, o1)] (mounted True)) =
          Some \<lparr>handle = 0, vertexSource = DEFAULT_VERTEX_SHADER, fragmentSource = s1\<rparr>"
    by blast
  from t show "map_option fragmentSource
            (programRef (compileEffects [(s1, o1), (s2, o2), (s3, o3)] (mounted True))) = Some s3"
    by blast
  from t show "deleted (compileEffects [(s1, o1), (s2, o2), (s3, o3)] (mounted True)) =
            [\<lparr>handle = 0, vertexSource = DEFAULT_VERTEX_SHADER, fragmentSource = s1\<rparr>]"
    by blast
qed

text \<open>C5 at a success, a failed fragment compile and a second success.\<close>

theorem success_replaces_program_witness:
  "glRef (mounted True)
   \<and> succeeds \<lparr>vsOutcome = CompileStatusTrue, fsOutcome = CompileStatusTrue,
                createProgramOk = True, linkStatus = True, programInfoLog = None\<rparr>
   \<and> \<not> succeeds \<lparr>vsOutcome = CompileStatusTrue,
                  fsOutcome = CompileStatusFalse (Some (js ''ERROR: 0:3: x'')),
                  createProgramOk = True, linkStatus = True, programInfoLog = None\<rparr>
   \<and> programRef (compileEffects
        [(js ''a'', \<lparr>vsOutcome = CompileStatusTrue, fsOutcome = CompileStatusTrue,
                     createProgramOk = True, linkStatus = True, programInfoLog = None\<rparr>)]
        (mounted True)) =
       Some \<lparr>handle = 0, vertexSource = DEFAULT_VERTEX_SHADER, fragmentSource = js ''a''\<rparr>
   \<and> currentError (compileEffect (js ''a'')
        \<lparr>vsOutcome = CompileStatusTrue, fsOutcome = CompileStatusTrue,
         createProgramOk = True, linkStatus = True, programInfoLog = None\<rparr>
        (mounted True)) = None
   \<and> count_list (deleted (compileEffects
        ([(js ''a'', \<lparr>vsOutcome = CompileStatusTrue, fsOutcome = CompileStatusTrue,
                     createProgramOk = True, linkStatus = True, programInfoLog = None\<rparr>)] @
         [(js ''b'', \<lparr>vsOutcome = CompileStatusTrue,
                      fsOutcome = CompileStatusFalse (Some (js ''ERROR: 0:3: x'')),
                      createProgramOk = True, linkStatus = True, programInfoLog = None\<rparr>),
          (js ''c'', \<lparr>vsOutcome = CompileStatusTrue, fsOutcome = CompileStatusTrue,
                     createProgramOk = True, linkStatus = True, programInfoLog = None\<rparr>)])
        (mounted True)))
       \<lparr>handle = 0, vertexSource = DEFAULT_VERTEX_SHADER, fragmentSource = js ''a''\<rparr> = 1"
proof -
  let ?ok = "\<lparr>vsOutcome = CompileStatusTrue, fsOutcome = CompileStatusTrue,
               createProgramOk = True, linkStatus = True, programInfoLog = None\<rparr>"
  let ?bad = "\<lparr>vsOutcome = CompileStatusTrue,
                fsOutcome = CompileStatusFalse (Some (js ''ERROR: 0:3: x'')),
                createProgramOk = True, linkStatus = True, programInfoLog = None\<rparr>"
  let ?p = "\<lparr>handle = 0, vertexSource = DEFAULT_VERTEX_SHADER, fragmentSource = js ''a''\<rparr>"
  have gl: "glRef (mounted True)" by (simp add: mounted_def)
  have ok: "succeeds ?ok" by (simp add: succeeds_def)
  have bad: "\<not> succeeds ?bad" by (simp add: succeeds_def)
  note t = success_replaces_program
    [of "mounted True" ?ok "js ''a''" "[(js ''a'', ?ok)]" True ?p
        "[(js ''b'', ?bad), (js ''c'', ?ok)]" ?ok ?bad ?ok "js ''a''" "js ''b''" "js ''c''"]
  from t ok bad have p1: "programRef (compileEffects [(js ''a'', ?ok)] (mounted True)) = Some ?p"
    by blast
  from t gl ok have e: "currentError (compileEffect (js ''a'') ?ok (mounted True)) = None"
    by blast
  from t ok bad have p3: "map_option fragmentSource (programRef (compileEffects
        [(js ''a'', ?ok), (js ''b'', ?bad), (js ''c'', ?ok)] (mounted True))) = Some (js ''c'')"
    by blast
  have "programRef (compileEffects ([(js ''a'', ?ok)] @ [(js ''b'', ?bad), (js ''c'', ?ok)])
          (mounted True)) \<noteq> Some ?p"
  proof
    assume "programRef (compileEffects ([(js ''a'', ?ok)] @ [(js ''b'', ?bad), (js ''c'', ?ok)])
          (mounted True)) = Some ?p"
    with p3 show False by simp
  qed
  with t p1 have "count_list (deleted (compileEffects
        ([(js ''a'', ?ok)] @ [(js ''b'', ?bad), (js ''c'', ?ok)]) (mounted True))) ?p = 1"
    by presburger
  with gl ok bad p1 e show ?thesis by blast
qed

section \<open>Properties of the viewport\<close>

lemma mount_pointer: "mouseRef (mountViewport cw ch rl rt dpr) = (0, 0)"
  by (simp add: mountViewport_def handleResize_def)

lemma pointer_at_ratio_one:
  "devicePixelRatio vp = 1 \<Longrightarrow> mouseRef (handleMouseMove x y vp) = specPointer x y vp"
  by (simp add: handleMouseMove_def specPointer_def)

lemma retina_canvas:
  "canvasWidth (mountViewport 200 100 10 20 2) = 400 \<and> canvasHeight (mountViewport 200 100 10 20 2) = 200"
  by (simp add: mountViewport_def handleResize_def toUnsignedLong_def reflected_def)

text \<open>
  C9. Before any pointer motion the pointer is at (0, 0). After a motion the code stores
  the offset of the pointer in CSS pixels, and for y the height of the drawing buffer in
  device pixels minus the offset in CSS pixels: at a device pixel ratio other than 1 this
  is not the position in device pixels with the origin at the bottom left. On a canvas of
  200 by 100 CSS pixels at ratio 2 (a buffer of 400 by 200), the pointer at the bottom
  left corner of the canvas is stored as (0, 100) where the position is (0, 0), and the
  pointer at the centre as (100, 150) where the position is (200, 100).
\<close>

theorem pointer_mixes_units:
  "mouseRef (mountViewport cw ch rl rt dpr) = (0, 0)
   \<and> canvasHeight (mountViewport 200 100 10 20 2) = 200
   \<and> mouseRef (handleMouseMove 10 120 (mountViewport 200 100 10 20 2)) = (0, 100)
   \<and> specPointer 10 120 (mountViewport 200 100 10 20 2) = (0, 0)
   \<and> mouseRef (handleMouseMove 110 70 (mountViewport 200 100 10 20 2)) = (100, 150)
   \<and> specPointer 110 70 (mountViewport 200 100 10 20 2) = (200, 100)"
  by (simp add: mountViewport_def handleResize_def toUnsignedLong_def reflected_def
        handleMouseMove_def specPointer_def)

section \<open>Properties of the render loop\<close>

lemma animate_frames:
  "startTimeRef (animate c now prog vp st) = startTimeRef st
   \<and> (\<forall>f\<in>set (frames (animate c now prog vp st)).
        f \<in> set (frames st) \<or> uTime f = real_of_int (now - startTimeRef st) / 1000)"
  by (auto simp: animate_def requestAnimationFrame_def Let_def split: option.splits)

lemma refresh_loop:
  "startTimeRef (foldl (\<lambda>s (i, c). animate c now prog vp s) st ps) = startTimeRef st
   \<and> (\<forall>f\<in>set (frames (foldl (\<lambda>s (i, c). animate c now prog vp s) st ps)).
        f \<in> set (frames st) \<or> uTime f = real_of_int (now - startTimeRef st) / 1000)"
proof (induction ps arbitrary: st)
  case Nil
  show ?case by simp
next
  case (Cons a ps)
  obtain i c where a: "a = (i, c)" by (cases a)
  show ?case unfolding a
    using Cons.IH [of "animate c now prog vp st"] animate_frames [of c now prog vp st]
    by (simp only: foldl_Cons prod.case) metis
qed

lemma refresh_frames:
  "startTimeRef (refresh now prog vp st) = startTimeRef st
   \<and> (\<forall>f\<in>set (frames (refresh now prog vp st)).
        f \<in> set (frames st) \<or> uTime f = real_of_int (now - startTimeRef st) / 1000)"
  unfolding refresh_def using refresh_loop [of now prog vp "st\<lparr>pending := []\<rparr>" "pending st"]
  by simp

lemma setIsPlaying_frames:
  "startTimeRef (setIsPlaying b st) = startTimeRef st \<and> frames (setIsPlaying b st) = frames st"
  by (simp add: setIsPlaying_def requestAnimationFrame_def cancelRequest_def Let_def
        split: option.splits)

lemma mountScheduler_fresh:
  "startTimeRef (mountScheduler t0 playing) = t0 \<and> frames (mountScheduler t0 playing) = []"
  by (simp add: mountScheduler_def requestAnimationFrame_def cancelRequest_def Let_def)

lemma runEvents_snoc: "runEvents prog vp (evs @ [e]) st = step prog vp (runEvents prog vp evs st) e"
  by (simp add: runEvents_def)

lemma elapsed_since_mount:
  "startTimeRef (runEvents prog vp evs (mountScheduler t0 playing)) = t0
   \<and> (\<forall>f\<in>set (frames (runEvents prog vp evs (mountScheduler t0 playing))).
        \<exists>now. Refresh now \<in> set evs \<and> uTime f = real_of_int (now - t0) / 1000)"
proof (induction evs rule: rev_induct)
  case Nil
  show ?case by (simp add: runEvents_def mountScheduler_fresh)
next
  case (snoc e evs)
  let ?st = "runEvents prog vp evs (mountScheduler t0 playing)"
  show ?case
  proof (cases e)
    case (Refresh now)
    show ?thesis unfolding runEvents_snoc Refresh step.simps
      using snoc.IH refresh_frames [of now prog vp ?st] by (simp only: set_append) fastforce
  next
    case (SetPlaying b)
    show ?thesis unfolding runEvents_snoc SetPlaying step.simps
      using snoc.IH setIsPlaying_frames [of b ?st] by auto
  qed
qed

lemma pause_resume:
  "map uTime (frames (runEvents (Some p) vp
       [Refresh 5000, SetPlaying False, Refresh 10000, SetPlaying True, Refresh (15000 + d)]
       (mountScheduler 0 True))) = [5, 15 + real_of_int d / 1000]"
  by (simp add: runEvents_def refresh_def animate_def setIsPlaying_def mountScheduler_def
        requestAnimationFrame_def cancelRequest_def Let_def add_divide_distrib)

text \<open>
  C6, as the code has it. \<open>startTimeRef\<close> is set when the component is mounted and never
  again, and every frame drawn uploads as elapsed seconds the time from the mount to its
  draw, whatever pauses lie between. For a run mounted at 0 with a frame at 5 s, a pause,
  and a resume 10 s later, the next frame, drawn \<open>d\<close> ms after 15 s, has
  \<open>15 + d / 1000\<close> elapsed seconds: it is not reset to 0 and is at least 5 s, and it
  has advanced by the time spent paused.
\<close>

theorem elapsed_is_time_since_mount:
  "(\<forall>f\<in>set (frames (runEvents prog vp evs (mountScheduler t0 playing))).
        \<exists>now. Refresh now \<in> set evs \<and> uTime f = real_of_int (now - t0) / 1000)
   \<and> map uTime (frames (runEvents (Some p) vp
       [Refresh 5000, SetPlaying False, Refresh 10000, SetPlaying True, Refresh (15000 + d)]
       (mountScheduler 0 True))) = [5, 15 + real_of_int d / 1000]"
  using elapsed_since_mount [of prog vp evs t0 playing] pause_resume [of p vp d]
  by blast

text \<open>C6 at the single frame drawn 5 s after the mount.\<close>

theorem elapsed_is_time_since_mount_witness:
  "map uTime (frames (runEvents
       (Some \<lparr>handle = 0, vertexSource = DEFAULT_VERTEX_SHADER, fragmentSource = js ''void main() {}''\<rparr>)
       (mountViewport 300 150 0 0 1) [Refresh 5000] (mountScheduler 0 True))) = [5]
   \<and> (\<exists>now. Refresh now \<in> set [Refresh 5000]
        \<and> uTime (hd (frames (runEvents
             (Some \<lparr>handle = 0, vertexSource = DEFAULT_VERTEX_SHADER,
                    fragmentSource = js ''void main() {}''\<rparr>)
             (mountViewport 300 150 0 0 1) [Refresh 5000] (mountScheduler 0 True)))) =
           real_of_int (now - 0) / 1000)"
proof -
  let ?p = "Some \<lparr>handle = 0, vertexSource = DEFAULT_VERTEX_SHADER,
                  fragmentSource = js ''void main() {}''\<rparr>"
  let ?fs = "frames (runEvents ?p (mountViewport 300 150 0 0 1) [Refresh 5000] (mountScheduler 0 True))"
  have m: "map uTime ?fs = [5]"
    by (simp add: runEvents_def refresh_def animate_def mountScheduler_def
        requestAnimationFrame_def Let_def)
  then have "?fs \<noteq> []" by auto
  then have "hd ?fs \<in> set ?fs" by (rule hd_in_set)
  with elapsed_is_time_since_mount [of ?p "mountViewport 300 150 0 0 1" "[Refresh 5000]" 0 True]
  have "\<exists>now. Refresh now \<in> set [Refresh 5000] \<and> uTime (hd ?fs) = real_of_int (now - 0) / 1000"
    by blast
  with m show ?thesis by blast
qed

text \<open>
  C6 as stated fails: mounted at 0, with a frame at 5 s, paused, and resumed at 15 s, the
  next frame (16 ms later) has 15.016 elapsed seconds; the elapsed time has jumped by the
  10 s of the pause.
\<close>

theorem pause_resume_counterexample:
  "map uTime (frames (runEvents
       (Some \<lparr>handle = 0, vertexSource = DEFAULT_VERTEX_SHADER, fragmentSource = js ''void main() {}''\<rparr>)
       (mountViewport 300 150 0 0 1)
       [Refresh 5000, SetPlaying False, SetPlaying True, Refresh 15016]
       (mountScheduler 0 True))) = [5, 15016 / 1000]"
  by (simp add: runEvents_def refresh_def animate_def setIsPlaying_def mountScheduler_def
        requestAnimationFrame_def cancelRequest_def Let_def)

section \<open>Properties of the debounced source\<close>

lemma runEdits_Cons: "runEdits ((t, v) # es) st = runEdits es (setCode t v st)"
  by (simp add: runEdits_def)

lemma runEdits_Nil: "runEdits [] st = st"
  by (simp add: runEdits_def)

lemma settle_general:
  "timer st = Some (t + 800, c) \<Longrightarrow> code st = c \<Longrightarrow> changing c es \<Longrightarrow>
   settled (advance tEnd (runEdits es st)) = settled st @ quietEdits ((t, c) # es) tEnd"
proof (induction es arbitrary: st t c)
  case Nil
  then show ?case by (simp add: runEdits_Nil advance_def)
next
  case (Cons e es)
  obtain t' v' where e: "e = (t', v')" by (cases e)
  from Cons.prems(3) have ne: "v' \<noteq> c" and ch: "changing v' es" by (simp_all add: e)
  let ?s = "advance t' st"
  have cs: "code ?s = c" using Cons.prems(1,2) by (simp add: advance_def)
  have ss: "settled ?s = settled st @ (if t + 800 \<le> t' then [(t + 800, c)] else [])"
    using Cons.prems(1) by (simp add: advance_def)
  let ?st' = "setCode t' v' st"
  have eq: "?st' = ?s\<lparr>code := v', timer := Some (t' + 800, v')\<rparr>"
    using ne cs by (simp add: setCode_def Let_def)
  have "settled (advance tEnd (runEdits es ?st')) = settled ?st' @ quietEdits ((t', v') # es) tEnd"
    by (rule Cons.IH) (simp_all add: eq ch)
  then show ?case unfolding e runEdits_Cons by (simp add: eq ss)
qed

lemma advance_observed:
  "runnableCode st = last (c0 # map snd (settled st)) \<Longrightarrow>
   runnableCode (advance t st) = last (c0 # map snd (settled (advance t st)))"
  by (auto simp: advance_def split: option.splits)

lemma setCode_observed:
  "runnableCode st = last (c0 # map snd (settled st)) \<Longrightarrow>
   runnableCode (setCode t v st) = last (c0 # map snd (settled (setCode t v st)))"
  using advance_observed [of st c0 t] by (simp add: setCode_def Let_def)

lemma runEdits_observed:
  "runnableCode st = last (c0 # map snd (settled st)) \<Longrightarrow>
   runnableCode (runEdits es st) = last (c0 # map snd (settled (runEdits es st)))"
proof (induction es arbitrary: st)
  case Nil
  then show ?case by (simp add: runEdits_Nil)
next
  case (Cons e es)
  obtain t v where e: "e = (t, v)" by (cases e)
  show ?case unfolding e runEdits_Cons
    by (rule Cons.IH) (rule setCode_observed [OF Cons.prems])
qed

lemma observed_from_mount:
  "runnableCode (advance tEnd (runEdits es (mountApp t0 c0))) =
     last (c0 # map snd (settled (advance tEnd (runEdits es (mountApp t0 c0)))))"
  by (rule advance_observed, rule runEdits_observed) (simp add: mountApp_def)

lemma settle_from_mount:
  "changing c0 es \<Longrightarrow>
   settled (advance tEnd (runEdits es (mountApp t0 c0))) = quietEdits ((t0, c0) # es) tEnd"
  using settle_general [of "mountApp t0 c0" t0 c0 es tEnd] by (simp add: mountApp_def)

text \<open>
  C7. An edit that changes the source replaces the pending timeout by one due 800 ms
  after it. For every sequence of edits, each changing the source, after the mount at \<open>t0\<close>:
  up to any time \<open>tEnd\<close>, the calls of \<open>setRunnableCode\<close> are exactly one for each
  edit (the mount counting as the first, with the initial source) that no other edit
  follows within 800 ms, made 800 ms after that edit, with its content, and
  \<open>runnableCode\<close>, the only source the compile path sees, is the content of the last
  such call, or the initial source. For edits at \<open>T\<close>, \<open>T + 100\<close>, \<open>T + 200\<close> and
  \<open>T + 750\<close> followed by silence, one call is made for the four edits, at \<open>T + 1550\<close>
  and with the content of the last edit (before it, only the call of the mount itself,
  when the mount is 800 ms or more before \<open>T\<close>).
\<close>

theorem debounce_settles_once:
  "(v \<noteq> code (advance t st) \<longrightarrow> timer (setCode t v st) = Some (t + 800, v))
   \<and> (changing c0 es \<longrightarrow>
      settled (advance tEnd (runEdits es (mountApp t0 c0))) = quietEdits ((t0, c0) # es) tEnd
      \<and> runnableCode (advance tEnd (runEdits es (mountApp t0 c0))) =
          last (c0 # map snd (quietEdits ((t0, c0) # es) tEnd)))
   \<and> (a \<noteq> c0 \<and> b \<noteq> a \<and> c \<noteq> b \<and> d \<noteq> c \<longrightarrow>
        settled (advance tEnd
          (runEdits [(T, a), (T + 100, b), (T + 200, c), (T + 750, d)] (mountApp t0 c0))) =
          (if t0 + 800 \<le> T then [(t0 + 800, c0)] else [])
          @ (if T + 1550 \<le> tEnd then [(T + 1550, d)] else [])
        \<and> runnableCode (advance tEnd
          (runEdits [(T, a), (T + 100, b), (T + 200, c), (T + 750, d)] (mountApp t0 c0))) =
          (if T + 1550 \<le> tEnd then d else c0))"
proof (intro conjI impI)
  assume "v \<noteq> code (advance t st)"
  then show "timer (setCode t v st) = Some (t + 800, v)"
    by (simp add: setCode_def Let_def)
next
  assume ch: "changing c0 es"
  then show s: "settled (advance tEnd (runEdits es (mountApp t0 c0))) = quietEdits ((t0, c0) # es) tEnd"
    by (rule settle_from_mount)
  show "runnableCode (advance tEnd (runEdits es (mountApp t0 c0))) =
          last (c0 # map snd (quietEdits ((t0, c0) # es) tEnd))"
    using observed_from_mount [of tEnd es t0 c0] by (simp only: s)
next
  let ?es = "[(T, a), (T + 100, b), (T + 200, c), (T + 750, d)]"
  assume ne: "a \<noteq> c0 \<and> b \<noteq> a \<and> c \<noteq> b \<and> d \<noteq> c"
  then have ch: "changing c0 ?es" by simp
  have s: "settled (advance tEnd (runEdits ?es (mountApp t0 c0))) =
      (if t0 + 800 \<le> T then [(t0 + 800, c0)] else [])
      @ (if T + 1550 \<le> tEnd then [(T + 1550, d)] else [])"
    using settle_from_mount [OF ch, of tEnd t0] by simp
  then show "settled (advance tEnd (runEdits ?es (mountApp t0 c0))) =
      (if t0 + 800 \<le> T then [(t0 + 800, c0)] else [])
      @ (if T + 1550 \<le> tEnd then [(T + 1550, d)] else [])" .
  show "runnableCode (advance tEnd (runEdits ?es (mountApp t0 c0))) =
          (if T + 1550 \<le> tEnd then d else c0)"
    using observed_from_mount [of tEnd ?es t0 c0]
    by (simp add: s)
qed

text \<open>C7 at two edits 100 ms apart and at the four edits at 0, 100, 200 and 750 ms.\<close>

theorem debounce_settles_once_witness:
  "js ''1'' \<noteq> code (advance 300 (mountApp 0 (js ''0'')))
   \<and> timer (setCode 300 (js ''1'') (mountApp 0 (js ''0''))) = Some (1100, js ''1'')
   \<and> changing (js ''0'') [(0, js ''1''), (100, js ''12'')]
   \<and> settled (advance 5000 (runEdits [(0, js ''1''), (100, js ''12'')] (mountApp 0 (js ''0'')))) =
       [(900, js ''12'')]
   \<and> js ''1'' \<noteq> js ''0'' \<and> js ''12'' \<noteq> js ''1'' \<and> js ''123'' \<noteq> js ''12''
   \<and> js ''1234'' \<noteq> js ''123''
   \<and> settled (advance 5000
        (runEdits [(0, js ''1''), (0 + 100, js ''12''), (0 + 200, js ''123''), (0 + 750, js ''1234'')]
           (mountApp 0 (js ''0'')))) = [(1550, js ''1234'')]
   \<and> runnableCode (advance 5000
        (runEdits [(0, js ''1''), (0 + 100, js ''12''), (0 + 200, js ''123''), (0 + 750, js ''1234'')]
           (mountApp 0 (js ''0'')))) = js ''1234''"
proof -
  have ch: "changing (js ''0'') [(0, js ''1''), (100, js ''12'')]" by simp
  have ne: "js ''1'' \<noteq> js ''0'' \<and> js ''12'' \<noteq> js ''1'' \<and> js ''123'' \<noteq> js ''12''
     \<and> js ''1234'' \<noteq> js ''123''" by simp
  have q: "quietEdits [(0, js ''0''), (0, js ''1''), (100, js ''12'')] 5000 = [(900, js ''12'')]"
    by simp
  note t = debounce_settles_once
    [of "js ''1''" 300 "mountApp 0 (js ''0'')" "js ''0''" "[(0, js ''1''), (100, js ''12'')]"
        5000 0 "js ''1''" "js ''12''" "js ''123''" "js ''1234''" 0]
  have nc: "js ''1'' \<noteq> code (advance 300 (mountApp 0 (js ''0'')))"
    by (simp add: advance_def mountApp_def)
  from t nc
  have s0: "timer (setCode 300 (js ''1'') (mountApp 0 (js ''0''))) = Some (1100, js ''1'')"
    by simp
  from t ch q
  have s1: "settled (advance 5000 (runEdits [(0, js ''1''), (100, js ''12'')] (mountApp 0 (js ''0'')))) =
       [(900, js ''12'')]"
    by presburger
  from t ne
  have s2: "settled (advance 5000
        (runEdits [(0, js ''1''), (0 + 100, js ''12''), (0 + 200, js ''123''), (0 + 750, js ''1234'')]
           (mountApp 0 (js ''0'')))) = [(1550, js ''1234'')]
   \<and> runnableCode (advance 5000
        (runEdits [(0, js ''1''), (0 + 100, js ''12''), (0 + 200, js ''123''), (0 + 750, js ''1234'')]
           (mountApp 0 (js ''0'')))) = js ''1234''"
    by simp
  from nc s0 ch s1 ne s2 show ?thesis by blast
qed

end
